theory Spec2Isabelle
  imports Main
begin

section \<open>Characters and C strings\<close>

text \<open>
  A C string is modelled as the list of its characters, without the terminating NUL;
  reading the character at the end of the list stands for reading the terminator.
\<close>

definition NUL :: char where
  "NUL = CHR 0x00"

definition PATH_SEPARATOR :: char where
  "PATH_SEPARATOR = CHR ''/''"

definition isdigit :: "char \<Rightarrow> bool" where
  "isdigit c = (let n = (of_char c :: nat) in 48 \<le> n \<and> n \<le> 57)"

definition isupper :: "char \<Rightarrow> bool" where
  "isupper c = (let n = (of_char c :: nat) in 65 \<le> n \<and> n \<le> 90)"

definition islower :: "char \<Rightarrow> bool" where
  "islower c = (let n = (of_char c :: nat) in 97 \<le> n \<and> n \<le> 122)"

definition isalnum :: "char \<Rightarrow> bool" where
  "isalnum c = (isdigit c \<or> islower c \<or> isupper c)"

definition isspace :: "char \<Rightarrow> bool" where
  "isspace c = (let n = (of_char c :: nat) in n = 32 \<or> (9 \<le> n \<and> n \<le> 13))"

definition tolower :: "char \<Rightarrow> char" where
  "tolower c = (if isupper c then char_of ((of_char c :: nat) + 32) else c)"

text \<open>The error codes that the functions of \<^verbatim>\<open>ignore.c\<close> hand to their callers.
  \<open>STOPIF_status\<close> is the status that a plain \<^verbatim>\<open>STOPIF\<close> passes on from a failed
  callee; \<open>BUG\<close> is the abort of \<^verbatim>\<open>BUG\<close> and \<^verbatim>\<open>BUG_ON\<close>;
  \<open>PCRE_ERROR_NULL\<close> is what the matcher returns for a missing compiled pattern.
  Memory allocation and file operations are taken to succeed.\<close>

datatype error = EINVAL | ENOSPC | STOPIF_status | BUG | PCRE_ERROR_NULL

section \<open>The regular expression engine\<close>

text \<open>
  The matcher is compiled and run by the PCRE library, which is not part of the
  repository. It is modelled for the fragment of the PCRE syntax that the shell
  translation writes: literal characters, a backslash before a character that is not
  alphanumeric, the dot, character classes with negation and ranges, the star after a
  single-character item, the dollar, and a group of alternatives without nesting. The
  model rejects every other construct. The options of the call are part of the model:
  the match is anchored at the start of the subject (\<^verbatim>\<open>PCRE_ANCHORED\<close>) and may end
  anywhere; the dot matches every character (\<^verbatim>\<open>PCRE_DOTALL\<close>); the dollar holds at the
  end of the subject and before a newline that is its last character; groups do not
  capture; \<^verbatim>\<open>PCRE_UNGREEDY\<close> changes which match is found first, not whether one
  exists.
\<close>

datatype pcre_atom = Lit char | AnyChar | CharClass bool "(char \<times> char) list"

datatype pcre_piece = One pcre_atom | Star pcre_atom | Dollar

datatype pcre_item = Piece pcre_piece | Group "pcre_piece list list"

datatype pcre = Pcre (caseless: bool) (items: "pcre_item list")

fun class_char :: "string \<Rightarrow> (char \<times> string) option" where
  "class_char [] = None"
| "class_char (c # s) =
     (if c = CHR 0x5C then
        (case s of [] \<Rightarrow> None | e # s' \<Rightarrow> if isalnum e then None else Some (e, s'))
      else if c = CHR ''['' \<and> (case s of [] \<Rightarrow> False | n # _ \<Rightarrow> n = CHR '':'' \<or> n = CHR ''.'' \<or> n = CHR ''='')
        then None
      else Some (c, s))"

lemma class_char_rest: "class_char s = Some (x, rest) \<Longrightarrow> length rest < length s"
  by (cases s) (auto split: if_splits list.splits)

declare class_char.simps [simp del]

function parse_class :: "bool \<Rightarrow> string \<Rightarrow> ((char \<times> char) list \<times> string) option" where
  "parse_class first [] = None"
| "parse_class first (c # s) =
     (if c = CHR '']'' \<and> \<not> first then Some ([], s)
      else
        (case class_char (c # s) of
           None \<Rightarrow> None
         | Some (lo, s1) \<Rightarrow>
             (if (case s1 of d # h # _ \<Rightarrow> d = CHR ''-'' \<and> h \<noteq> CHR '']'' | _ \<Rightarrow> False) then
                (case class_char (tl s1) of
                   None \<Rightarrow> None
                 | Some (hi, s3) \<Rightarrow>
                     if (of_char hi :: nat) < of_char lo then None
                     else
                       (case parse_class False s3 of
                          None \<Rightarrow> None
                        | Some (rs, rest) \<Rightarrow> Some ((lo, hi) # rs, rest)))
              else
                (case parse_class False s1 of
                   None \<Rightarrow> None
                 | Some (rs, rest) \<Rightarrow> Some ((lo, lo) # rs, rest)))))"
  by pat_completeness auto
termination
proof (relation "measure (\<lambda>(first, s). length s)", goal_cases)
  case 1
  show ?case by simp
next
  case (2 first c s x2 lo s1 x2a hi s3)
  from 2 have "length s1 < length (c # s)" "length s3 < length (tl s1)"
    by (auto dest!: class_char_rest)
  then show ?case by (cases s1) auto
next
  case (3 first c s x2 lo s1)
  then show ?case by (auto dest!: class_char_rest)
qed

declare parse_class.simps(2) [simp del]

definition quantifier_next :: "string \<Rightarrow> bool" where
  "quantifier_next s =
     (case s of [] \<Rightarrow> False | q # _ \<Rightarrow> q = CHR ''*'' \<or> q = CHR ''+'' \<or> q = CHR ''?'' \<or> q = CHR ''{'')"

definition parse_atom :: "string \<Rightarrow> (pcre_atom \<times> string) option" where
  "parse_atom s =
     (case s of
        [] \<Rightarrow> None
      | c # s' \<Rightarrow>
          if c = CHR 0x5C then
            (case s' of [] \<Rightarrow> None | e # s'' \<Rightarrow> if isalnum e then None else Some (Lit e, s''))
          else if c = CHR ''.'' then Some (AnyChar, s')
          else if c = CHR ''['' then
            (case s' of
               [] \<Rightarrow> None
             | n # s'' \<Rightarrow>
                 if n = CHR ''^''
                 then map_option (\<lambda>(rs, rest). (CharClass True rs, rest)) (parse_class True s'')
                 else map_option (\<lambda>(rs, rest). (CharClass False rs, rest)) (parse_class True s'))
          else if quantifier_next s \<or> c = CHR ''^'' then None
          else Some (Lit c, s'))"

lemma parse_class_rest: "parse_class first s = Some (rs, rest) \<Longrightarrow> length rest < length s"
proof (induction first s arbitrary: rs rest rule: parse_class.induct)
  case (1 first)
  then show ?case by simp
next
  case (2 first c s)
  show ?case
  proof (cases "c = CHR '']'' \<and> \<not> first")
    case True
    with 2(3) show ?thesis by (auto simp: parse_class.simps(2))
  next
    case False
    then obtain lo s1 where cc: "class_char (c # s) = Some (lo, s1)"
      using 2(3) by (auto simp: parse_class.simps(2) split: option.splits)
    have l1: "length s1 < length (c # s)" using class_char_rest[OF cc] .
    show ?thesis
    proof (cases "(case s1 of d # h # _ \<Rightarrow> d = CHR ''-'' \<and> h \<noteq> CHR '']'' | _ \<Rightarrow> False)")
      case True
      then obtain hi s3 rs' where c2: "class_char (tl s1) = Some (hi, s3)"
        and ge: "\<not> (of_char hi :: nat) < of_char lo"
        and pc: "parse_class False s3 = Some (rs', rest)"
        using 2(3) False cc by (auto simp: parse_class.simps(2) split: option.splits if_splits)
      have "length rest < length s3" using 2(1)[OF False cc refl True c2 refl ge pc] .
      moreover have "length s3 < length (tl s1)" using class_char_rest[OF c2] .
      ultimately show ?thesis using l1 by (cases s1) auto
    next
      case F2: False
      then obtain rs' where pc: "parse_class False s1 = Some (rs', rest)"
        using 2(3) False cc by (auto simp: parse_class.simps(2) split: option.splits if_splits)
      have "length rest < length s1" using 2(2)[OF False cc refl F2 pc] .
      then show ?thesis using l1 by simp
    qed
  qed
qed

lemma parse_atom_rest: "parse_atom s = Some (a, rest) \<Longrightarrow> length rest < length s"
  by (auto simp: parse_atom_def split: list.splits if_splits dest!: parse_class_rest)

function parse_pieces :: "string \<Rightarrow> (pcre_piece list \<times> string) option" where
  "parse_pieces [] = Some ([], [])"
| "parse_pieces (c # s) =
     (if c = CHR ''|'' \<or> c = CHR '')'' \<or> c = CHR ''('' then Some ([], c # s)
      else if c = CHR ''$'' then
        (if quantifier_next s then None
         else map_option (\<lambda>(ps, rest). (Dollar # ps, rest)) (parse_pieces s))
      else
        (case parse_atom (c # s) of
           None \<Rightarrow> None
         | Some (a, s1) \<Rightarrow>
             (if (case s1 of [] \<Rightarrow> False | q # _ \<Rightarrow> q = CHR ''*'') then
                (if quantifier_next (tl s1) then None
                 else map_option (\<lambda>(ps, rest). (Star a # ps, rest)) (parse_pieces (tl s1)))
              else if quantifier_next s1 then None
              else map_option (\<lambda>(ps, rest). (One a # ps, rest)) (parse_pieces s1))))"
  by pat_completeness auto
termination
proof (relation "measure length", goal_cases)
  case 1
  show ?case by simp
next
  case (2 c s)
  then show ?case by simp
next
  case (3 c s x2 a s1)
  then show ?case by (cases s1) (auto dest!: parse_atom_rest)
next
  case (4 c s x2 a s1)
  then show ?case by (auto dest!: parse_atom_rest)
qed

declare parse_pieces.simps(2) [simp del]

lemma parse_pieces_rest: "parse_pieces s = Some (ps, rest) \<Longrightarrow> length rest \<le> length s"
proof (induction s arbitrary: ps rest rule: parse_pieces.induct)
  case 1
  then show ?case by simp
next
  case (2 c s)
  show ?case
  proof (cases "c = CHR ''|'' \<or> c = CHR '')'' \<or> c = CHR ''(''")
    case True
    with 2(4) show ?thesis by (auto simp: parse_pieces.simps)
  next
    case nb: False
    show ?thesis
    proof (cases "c = CHR ''$''")
      case True
      with nb 2(4) obtain ps' where "\<not> quantifier_next s" "parse_pieces s = Some (ps', rest)"
        by (auto simp: parse_pieces.simps split: if_splits)
      from 2(1)[OF nb True this] show ?thesis by simp
    next
      case nd: False
      then obtain a s1 where pa: "parse_atom (c # s) = Some (a, s1)"
        using nb 2(4) by (auto simp: parse_pieces.simps split: option.splits)
      have l1: "length s1 < length (c # s)" using parse_atom_rest[OF pa] .
      show ?thesis
      proof (cases "(case s1 of [] \<Rightarrow> False | q # _ \<Rightarrow> q = CHR ''*'')")
        case True
        then obtain ps' where nq: "\<not> quantifier_next (tl s1)" and pp: "parse_pieces (tl s1) = Some (ps', rest)"
          using nb nd pa 2(4) by (auto simp: parse_pieces.simps split: if_splits)
        from 2(2)[OF nb nd pa refl True nq pp] l1 show ?thesis by (cases s1) auto
      next
        case ns: False
        then obtain ps' where nq: "\<not> quantifier_next s1" and pp: "parse_pieces s1 = Some (ps', rest)"
          using nb nd pa 2(4) by (auto simp: parse_pieces.simps split: if_splits)
        from 2(3)[OF nb nd pa refl ns nq pp] l1 show ?thesis by simp
      qed
    qed
  qed
qed

function parse_alts :: "string \<Rightarrow> (pcre_piece list list \<times> string) option" where
  "parse_alts s =
     (case parse_pieces s of
        None \<Rightarrow> None
      | Some (ps, rest) \<Rightarrow>
          (case rest of
             [] \<Rightarrow> None
           | c # r \<Rightarrow>
               if c = CHR '')'' then Some ([ps], r)
               else if c = CHR ''|'' then
                 (case parse_alts r of
                    None \<Rightarrow> None
                  | Some (alts, rest') \<Rightarrow> Some (ps # alts, rest'))
               else None))"
  by pat_completeness auto
termination
  by (relation "measure length") (auto dest!: parse_pieces_rest)

declare parse_alts.simps [simp del]

lemma parse_alts_rest: "parse_alts s = Some (alts, rest) \<Longrightarrow> length rest < length s"
proof (induction s arbitrary: alts rest rule: parse_alts.induct)
  case (1 s)
  from 1(2) obtain ps c r where pp: "parse_pieces s = Some (ps, c # r)"
    by (subst (asm) parse_alts.simps) (auto split: option.splits list.splits)
  have l: "length (c # r) \<le> length s" using parse_pieces_rest[OF pp] .
  show ?case
  proof (cases "c = CHR '')''")
    case True
    with 1(2) pp l show ?thesis by (subst (asm) parse_alts.simps) auto
  next
    case False
    then obtain alts' where bar: "c = CHR ''|''" and pa: "parse_alts r = Some (alts', rest)"
      using 1(2) pp by (subst (asm) parse_alts.simps) (auto split: option.splits if_splits)
    from 1(1)[OF pp refl refl False bar pa] l show ?thesis by simp
  qed
qed

function parse_items :: "string \<Rightarrow> pcre_item list option" where
  "parse_items s =
     (case parse_pieces s of
        None \<Rightarrow> None
      | Some (ps, rest) \<Rightarrow>
          (case rest of
             [] \<Rightarrow> Some (map Piece ps)
           | c # r \<Rightarrow>
               if c = CHR ''('' \<and> \<not> quantifier_next r then
                 (case parse_alts r of
                    None \<Rightarrow> None
                  | Some (alts, rest') \<Rightarrow>
                      if quantifier_next rest' then None
                      else
                        (case parse_items rest' of
                           None \<Rightarrow> None
                         | Some its \<Rightarrow> Some (map Piece ps @ Group alts # its)))
               else None))"
  by pat_completeness auto
termination
proof (relation "measure length", goal_cases)
  case 1
  show ?case by simp
next
  case (2 s x2 ps rest c r x2a alts rest')
  from 2 have "length (c # r) \<le> length s" "length rest' < length r"
    by (auto dest!: parse_pieces_rest parse_alts_rest)
  then show ?case by simp
qed

declare parse_items.simps [simp del]

definition pcre_compile :: "string \<Rightarrow> bool \<Rightarrow> pcre option" where
  "pcre_compile src icase = map_option (Pcre icase) (parse_items src)"

definition toupper :: "char \<Rightarrow> char" where
  "toupper c = (if islower c then char_of ((of_char c :: nat) - 32) else c)"

definition in_ranges :: "(char \<times> char) list \<Rightarrow> char \<Rightarrow> bool" where
  "in_ranges rs c = list_ex (\<lambda>(lo, hi). (of_char lo :: nat) \<le> of_char c \<and> (of_char c :: nat) \<le> of_char hi) rs"

fun atom_ok :: "bool \<Rightarrow> pcre_atom \<Rightarrow> char \<Rightarrow> bool" where
  "atom_ok ci (Lit x) c = (if ci then tolower x = tolower c else x = c)"
| "atom_ok ci AnyChar c = True"
| "atom_ok ci (CharClass neg rs) c =
     (neg \<noteq> (in_ranges rs c \<or> (ci \<and> (in_ranges rs (tolower c) \<or> in_ranges rs (toupper c)))))"

fun match_star :: "bool \<Rightarrow> pcre_atom \<Rightarrow> string \<Rightarrow> string list" where
  "match_star ci a [] = [[]]"
| "match_star ci a (c # s) = (c # s) # (if atom_ok ci a c then match_star ci a s else [])"

fun match_piece :: "bool \<Rightarrow> pcre_piece \<Rightarrow> string \<Rightarrow> string list" where
  "match_piece ci (One a) s = (case s of [] \<Rightarrow> [] | c # s' \<Rightarrow> if atom_ok ci a c then [s'] else [])"
| "match_piece ci (Star a) s = match_star ci a s"
| "match_piece ci Dollar s = (if s = [] \<or> s = [CHR 0x0A] then [s] else [])"

fun match_pieces :: "bool \<Rightarrow> pcre_piece list \<Rightarrow> string \<Rightarrow> string list" where
  "match_pieces ci [] s = [s]"
| "match_pieces ci (p # ps) s = concat (map (match_pieces ci ps) (match_piece ci p s))"

fun match_items :: "bool \<Rightarrow> pcre_item list \<Rightarrow> string \<Rightarrow> string list" where
  "match_items ci [] s = [s]"
| "match_items ci (Piece p # its) s = concat (map (match_items ci its) (match_piece ci p s))"
| "match_items ci (Group alts # its) s =
     concat (map (match_items ci its) (concat (map (\<lambda>ps. match_pieces ci ps s) alts)))"

definition PCRE_ERROR_NOMATCH :: int where
  "PCRE_ERROR_NOMATCH = - 1"

definition pcre_exec :: "pcre \<Rightarrow> string \<Rightarrow> int" where
  "pcre_exec re subject =
     (if match_items (caseless re) (items re) subject = [] then PCRE_ERROR_NOMATCH else 0)"

section \<open>Shell patterns: the bracket expression\<close>

text \<open>
  The loop of \<^verbatim>\<open>ign___translate_bracketed_expr\<close>. \<open>room\<close> is
  \<^verbatim>\<open>end_of_buffer - *dest\<close>; the characters written through \<^verbatim>\<open>*dest\<close> are
  returned in order, together with the rest of the source string. Every round reads one
  source character; a round is entered only when that character is not the terminator
  (the first round reads the opening bracket).
\<close>

fun bracket_loop :: "int \<Rightarrow> int \<Rightarrow> bool \<Rightarrow> string \<Rightarrow> error + (string \<times> string)" where
  "bracket_loop room pos backslashed [] = Inr ([], [])"
| "bracket_loop room pos backslashed (c # src) =
     (let (d, pos', backslashed') =
        (if backslashed then (c, pos, False)
         else if pos = 0 \<and> (c = CHR ''!'' \<or> c = CHR ''^'') then (CHR ''^'', pos, backslashed)
         else (c, if c = CHR '']'' \<and> 0 < pos then - 1 else pos + 1, c = CHR 0x5C))
      in if room - 1 < 5 then Inl ENOSPC
         else if 0 \<le> pos' then
           (case bracket_loop (room - 1) pos' backslashed' src of
              Inl e \<Rightarrow> Inl e
            | Inr (out, rest) \<Rightarrow> Inr (d # out, rest))
         else Inr ([d], src))"

definition ign___translate_bracketed_expr :: "int \<Rightarrow> string \<Rightarrow> error + (string \<times> string)" where
  "ign___translate_bracketed_expr room src =
     (case src of
        [] \<Rightarrow> Inl STOPIF_status
      | c # _ \<Rightarrow> if c \<noteq> CHR ''['' then Inl STOPIF_status else bracket_loop room (- 1) False src)"

section \<open>Shell patterns: the translation into a regular expression\<close>

text \<open>
  One round of the translation loop of \<^verbatim>\<open>ign__compile_pattern\<close>, reading the
  character \<open>c\<close> with the rest \<open>src\<close> of the pattern behind it. The result holds the
  characters written, whether \<^verbatim>\<open>has_wildwildcard\<close> was set, the new escape mode
  and the source left to read.
\<close>

definition shell_step :: "int \<Rightarrow> bool \<Rightarrow> char \<Rightarrow> string \<Rightarrow> error + (string \<times> bool \<times> bool \<times> string)" where
  "shell_step room backslashed c src =
     (if backslashed then Inr ([c], False, False, src)
      else if c = CHR ''*'' then
        (if (case src of [] \<Rightarrow> False | n # _ \<Rightarrow> n = CHR ''*'')
         then Inr (''.*'', True, False, dropWhile (\<lambda>x. x = CHR ''*'') src)
         else Inr ([CHR ''['', CHR ''^'', PATH_SEPARATOR, CHR '']'', CHR ''*''], False, False, src))
      else if c = CHR ''?'' then Inr (''.'', False, False, src)
      else if c = CHR ''['' then
        (case ign___translate_bracketed_expr room (c # src) of
           Inl e \<Rightarrow> Inl e
         | Inr (out, rest) \<Rightarrow> Inr (out, False, False, rest))
      else if isalnum c \<or> c = CHR ''/'' \<or> c = CHR ''-'' then Inr ([c], False, False, src)
      else if c = CHR 0x5C then Inr ([c], False, True, src)
      else Inr ([CHR 0x5C, c], False, False, src))"

lemma bracket_loop_rest:
  "bracket_loop room pos bs src = Inr (out, rest) \<Longrightarrow> length rest \<le> length src"
proof (induction src arbitrary: room pos bs out rest)
  case Nil
  then show ?case by simp
next
  case (Cons c src)
  then show ?case
    by (fastforce simp: Let_def split: if_splits sum.splits prod.splits)
qed

lemma translate_bracketed_expr_rest:
  "ign___translate_bracketed_expr room (c # src) = Inr (out, rest) \<Longrightarrow> length rest \<le> length src"
  by (auto simp: ign___translate_bracketed_expr_def Let_def
      split: if_splits sum.splits prod.splits dest: bracket_loop_rest)

lemma shell_step_rest:
  "shell_step room bs c src = Inr (d, w, bs', rest) \<Longrightarrow> length rest \<le> length src"
  by (auto simp: shell_step_def split: if_splits sum.splits prod.splits
      dest: translate_bracketed_expr_rest intro: le_trans[OF length_dropWhile_le])

text \<open>
  The translation loop itself. \<open>room\<close> is \<^verbatim>\<open>buffer+len - dest\<close>. The loop is a
  \<^verbatim>\<open>do ... while (*src)\<close>; its callers hand it a non-empty pattern, so a round
  starts only on a character that is not the terminator.
\<close>

function shell_loop :: "int \<Rightarrow> bool \<Rightarrow> string \<Rightarrow> error + (string \<times> bool)" where
  "shell_loop room backslashed [] = Inr ([], False)"
| "shell_loop room backslashed (c # src) =
     (case shell_step room backslashed c src of
        Inl e \<Rightarrow> Inl e
      | Inr (d, wild, backslashed', rest) \<Rightarrow>
          if room - int (length d) < 11 then Inl ENOSPC
          else
            (case shell_loop (room - int (length d)) backslashed' rest of
               Inl e \<Rightarrow> Inl e
             | Inr (out, wild') \<Rightarrow> Inr (d @ out, wild \<or> wild')))"
  by pat_completeness auto
termination
  by (relation "measure (\<lambda>(room, bs, src). length src)")
     (auto dest: shell_step_rest)

text \<open>
  The anchor that follows the loop: a \<open>$\<close> is appended; when the last character of the
  pattern is the path separator, the character written before the \<open>$\<close> is overwritten
  with an opening parenthesis and \<open>|/)\<close> is appended.
\<close>

definition anchor :: "string \<Rightarrow> string \<Rightarrow> string" where
  "anchor src out =
     (if src = [] then out
      else if last src = PATH_SEPARATOR
        then butlast out @ [CHR ''('', CHR ''$'', CHR ''|'', PATH_SEPARATOR, CHR '')'']
        else out @ [CHR ''$''])"

text \<open>
  The shell branch of \<^verbatim>\<open>ign__compile_pattern\<close> up to the call of the regular
  expression compiler: \<open>pattern\<close> is the whole rule text (its length sizes the buffer),
  \<open>compare_string\<close> the part that is translated. An empty \<open>compare_string\<close> would make
  the loop step over the terminator; \<^verbatim>\<open>ign___init_pattern_into\<close> never passes one.
\<close>

definition translate_shell :: "string \<Rightarrow> string \<Rightarrow> error + (string \<times> bool)" where
  "translate_shell pattern compare_string =
     (if compare_string = [] then Inl BUG
      else
        (case shell_loop (int (length pattern) * 5 + 16) False compare_string of
           Inl e \<Rightarrow> Inl e
         | Inr (out, wild) \<Rightarrow> Inr (anchor compare_string out, wild)))"

section \<open>Rules\<close>

text \<open>
  \<^verbatim>\<open>struct ignore_t\<close>, with the fields that \<^verbatim>\<open>ignore.c\<close> reads and writes. Its
  declaration and the constants below are in a header that is not among the sources; a
  device number is kept as its pair of major and minor number, which is all that
  \<^verbatim>\<open>MAJOR\<close>, \<^verbatim>\<open>MINOR\<close> and \<^verbatim>\<open>MKDEV\<close> are used for.
\<close>

datatype pattern_type = PT_SHELL | PT_PCRE | PT_DEVICE | PT_INODE

datatype dev_t = MKDEV (MAJOR: int) (MINOR: int)

record ignore_t =
  pattern :: string
  compare_string :: string
  path_level :: nat
  is_ignore :: bool
  is_icase :: bool
  is_user_pat :: bool
  has_wildwildcard :: bool
  pat_type :: pattern_type
  compiled :: "pcre option"
  major :: int
  minor :: int
  compare :: nat
  has_minor :: bool
  dev :: dev_t
  inode :: nat

text \<open>Modelled from the spec: the comparator of a device rule is built from \<open><\<close>,
  \<open>=\<close> and \<open>>\<close>; the three flags are distinct bits, and nothing is set when the rule
  names no comparator. The header that gives the values is not among the sources.\<close>

definition PAT_DEV__UNSPECIFIED :: nat where
  "PAT_DEV__UNSPECIFIED = 0"

definition PAT_DEV__LESS :: nat where
  "PAT_DEV__LESS = 1"

definition PAT_DEV__EQUAL :: nat where
  "PAT_DEV__EQUAL = 2"

definition PAT_DEV__GREATER :: nat where
  "PAT_DEV__GREATER = 4"

text \<open>\<^verbatim>\<open>compare |= flag\<close> for a flag that is a single bit.\<close>

definition set_flag :: "nat \<Rightarrow> nat \<Rightarrow> nat" where
  "set_flag flag c = (if odd (c div flag) then c else c + flag)"

text \<open>Modelled from the spec: the positions \<open>Start\<close> (right behind the built-in
  rules) and \<open>End\<close>; an index counts from \<open>0\<close>, so \<open>Start\<close> is \<open>0\<close>, and \<open>End\<close> is
  no index.\<close>

definition PATTERN_POSITION_START :: int where
  "PATTERN_POSITION_START = 0"

definition PATTERN_POSITION_END :: int where
  "PATTERN_POSITION_END = - 1"

text \<open>An array slot that was never written: its content is not defined in C.\<close>

definition blank_ignore :: ignore_t where
  "blank_ignore =
     \<lparr>pattern = [], compare_string = [], path_level = 0, is_ignore = False, is_icase = False,
      is_user_pat = False, has_wildwildcard = False, pat_type = PT_SHELL, compiled = None,
      major = 0, minor = 0, compare = 0, has_minor = False, dev = MKDEV 0 0, inode = 0\<rparr>"

section \<open>Numbers in rule texts\<close>

text \<open>
  \<^verbatim>\<open>strtoul\<close> and \<^verbatim>\<open>strtoull\<close> with base \<open>0\<close>, for 64 bit: white space, a sign, the
  prefix that chooses the base, then the digits. \<open>None\<close> stands for the end pointer left
  at the start (nothing converted).
\<close>

definition digit_value :: "char \<Rightarrow> nat" where
  "digit_value c =
     (if isdigit c then of_char c - 48
      else if islower c then of_char c - 87
      else if isupper c then of_char c - 55
      else 36)"

fun digits_value :: "nat \<Rightarrow> nat \<Rightarrow> string \<Rightarrow> nat" where
  "digits_value base acc [] = acc"
| "digits_value base acc (c # s) = digits_value base (acc * base + digit_value c) s"

definition convert :: "nat \<Rightarrow> bool \<Rightarrow> string \<Rightarrow> (nat \<times> string) option" where
  "convert base negative s =
     (let ds = takeWhile (\<lambda>c. digit_value c < base) s;
          v = digits_value base 0 ds;
          u = (if 2 ^ 64 \<le> v then 2 ^ 64 - 1 else if negative then (2 ^ 64 - v) mod 2 ^ 64 else v)
      in if ds = [] then None else Some (u, dropWhile (\<lambda>c. digit_value c < base) s))"

definition strtoul :: "string \<Rightarrow> (nat \<times> string) option" where
  "strtoul nptr =
     (let s = dropWhile isspace nptr;
          negative = (case s of [] \<Rightarrow> False | c # _ \<Rightarrow> c = CHR ''-'');
          s = (case s of [] \<Rightarrow> [] | c # r \<Rightarrow> if c = CHR ''-'' \<or> c = CHR ''+'' then r else s)
      in case s of
           z # x # h # r \<Rightarrow>
             if z = CHR ''0'' \<and> (x = CHR ''x'' \<or> x = CHR ''X'') \<and> digit_value h < 16
             then convert 16 negative (h # r)
             else if z = CHR ''0'' then convert 8 negative s
             else convert 10 negative s
         | z # _ \<Rightarrow> if z = CHR ''0'' then convert 8 negative s else convert 10 negative s
         | [] \<Rightarrow> None)"

text \<open>The value as it is stored in an \<^verbatim>\<open>int\<close> of 32 bit.\<close>

definition to_int :: "nat \<Rightarrow> int" where
  "to_int v = (let m = int (v mod 2 ^ 32) in if m < 2 ^ 31 then m else m - 2 ^ 32)"

section \<open>Reading one rule\<close>

text \<open>
  \<^verbatim>\<open>ign__compile_pattern\<close>: a shell pattern is translated first; the text is then given
  to the regular expression compiler.
\<close>

definition ign__compile_pattern :: "ignore_t \<Rightarrow> error + ignore_t" where
  "ign__compile_pattern ignore =
     (case (case pat_type ignore of
              PT_PCRE \<Rightarrow> Inr ignore
            | PT_SHELL \<Rightarrow>
                (case translate_shell (pattern ignore) (compare_string ignore) of
                   Inl e \<Rightarrow> Inl e
                 | Inr (buffer, wild) \<Rightarrow>
                     Inr (ignore\<lparr>has_wildwildcard := wild, compare_string := buffer\<rparr>))
            | _ \<Rightarrow> Inl BUG) of
        Inl e \<Rightarrow> Inl e
      | Inr ignore' \<Rightarrow>
          (case pcre_compile (compare_string ignore') (is_icase ignore') of
             None \<Rightarrow> Inl EINVAL
           | Some re \<Rightarrow> Inr (ignore'\<lparr>compiled := Some re\<rparr>)))"

text \<open>The white space before a rule text, and the modifiers \<open>t\<close> and \<open>i\<close>. The text
  ends where the string ends, so \<^verbatim>\<open>pattern >= end\<close> holds when nothing is left.\<close>

fun skip_space :: "string \<Rightarrow> error + string" where
  "skip_space [] = Inr []"
| "skip_space (c # s) =
     (if isspace c then (if s = [] then Inl EINVAL else skip_space s) else Inr (c # s))"

fun modifiers :: "ignore_t \<Rightarrow> string \<Rightarrow> error + (ignore_t \<times> string)" where
  "modifiers ignore [] = Inr (ignore, [])"
| "modifiers ignore (c # s) =
     (if c = CHR ''t'' then
        (if s = [] then Inl EINVAL else modifiers (ignore\<lparr>is_ignore := False\<rparr>) s)
      else if c = CHR ''i'' then
        (if s = [] then Inl EINVAL else modifiers (ignore\<lparr>is_icase := True\<rparr>) s)
      else Inr (ignore, c # s))"

fun comparators :: "nat \<Rightarrow> string \<Rightarrow> nat \<times> string" where
  "comparators cmp [] = (cmp, [])"
| "comparators cmp (c # s) =
     (if c = CHR ''<'' then comparators (set_flag PAT_DEV__LESS cmp) s
      else if c = CHR ''='' then comparators (set_flag PAT_DEV__EQUAL cmp) s
      else if c = CHR ''>'' then comparators (set_flag PAT_DEV__GREATER cmp) s
      else (cmp, c # s))"

definition init_device :: "ignore_t \<Rightarrow> string \<Rightarrow> error + ignore_t" where
  "init_device ignore pat =
     (let (cmp, s) = comparators PAT_DEV__UNSPECIFIED (drop 7 pat);
          cmp = (if cmp = PAT_DEV__UNSPECIFIED then PAT_DEV__EQUAL else cmp);
          ignore = ignore\<lparr>pat_type := PT_DEVICE, compare_string := pat, compare := cmp\<rparr>
      in case strtoul s of
           None \<Rightarrow> Inl EINVAL
         | Some (mj, cp) \<Rightarrow>
             (case cp of
                [] \<Rightarrow> Inr (ignore\<lparr>major := to_int mj, minor := int PAT_DEV__UNSPECIFIED,
                                  has_minor := False\<rparr>)
              | c # s' \<Rightarrow>
                  if c \<noteq> CHR '':'' then Inl EINVAL
                  else
                    (case strtoul s' of
                       None \<Rightarrow> Inl EINVAL
                     | Some (mn, cp') \<Rightarrow>
                         if cp' \<noteq> [] then Inl EINVAL
                         else Inr (ignore\<lparr>major := to_int mj, minor := to_int mn,
                                          has_minor := True\<rparr>))))"

definition init_inode :: "ignore_t \<Rightarrow> string \<Rightarrow> error + ignore_t" where
  "init_inode ignore pat =
     (let ignore = ignore\<lparr>pat_type := PT_INODE, compare_string := pat\<rparr>
      in case strtoul (drop 6 pat) of
           None \<Rightarrow> Inl EINVAL
         | Some (mj, cp) \<Rightarrow>
             (case cp of
                [] \<Rightarrow> Inl EINVAL
              | c # s \<Rightarrow>
                  if c \<noteq> CHR '':'' then Inl EINVAL
                  else
                    (case strtoul s of
                       None \<Rightarrow> Inl EINVAL
                     | Some (mn, cp') \<Rightarrow>
                         (case cp' of
                            [] \<Rightarrow> Inl EINVAL
                          | c' # s' \<Rightarrow>
                              if c' \<noteq> CHR '':'' then Inl EINVAL
                              else
                                (case strtoul s' of
                                   None \<Rightarrow> Inl EINVAL
                                 | Some (ino, cp'') \<Rightarrow>
                                     if cp'' \<noteq> [] then Inl EINVAL
                                     else Inr (ignore\<lparr>dev := MKDEV (to_int mj) (to_int mn),
                                                      inode := ino\<rparr>))))))"

definition init_regex :: "ignore_t \<Rightarrow> string \<Rightarrow> error + ignore_t" where
  "init_regex ignore pat =
     (case (if take 5 pat = ''PCRE:'' then Inr (PT_PCRE, drop 5 pat)
            else if take 2 pat = ''./'' then Inr (PT_SHELL, pat)
            else Inl EINVAL) of
        Inl e \<Rightarrow> Inl e
      | Inr (ty, pat') \<Rightarrow>
          if length pat' < 3 then Inl EINVAL
          else ign__compile_pattern
                 (ignore\<lparr>pat_type := ty,
                         path_level := length (filter (\<lambda>c. c = PATH_SEPARATOR) pat'),
                         compare_string := pat'\<rparr>))"

text \<open>
  \<^verbatim>\<open>ign___init_pattern_into\<close>. The array slot \<open>ignore\<close> is overwritten; the fields that
  the kind of rule does not use keep what the slot held.
\<close>

definition ign___init_pattern_into :: "string \<Rightarrow> ignore_t \<Rightarrow> error + ignore_t" where
  "ign___init_pattern_into text ignore =
     (case skip_space text of
        Inl e \<Rightarrow> Inl e
      | Inr pat \<Rightarrow>
          (case modifiers (ignore\<lparr>pattern := pat, is_ignore := True, is_icase := False\<rparr>) pat of
             Inl e \<Rightarrow> Inl e
           | Inr (ignore', pat') \<Rightarrow>
               if take 7 pat' = ''DEVICE:'' then init_device ignore' pat'
               else if take 6 pat' = ''INODE:'' then init_inode ignore' pat'
               else init_regex ignore' pat'))"

section \<open>The rule list\<close>

text \<open>
  The global \<^verbatim>\<open>ignore_list\<close> with its \<^verbatim>\<open>used_ignore_entries\<close> is the list of the
  entries in use. \<open>slot\<close> is the content of the array at an index before a new rule is
  written there: \<^verbatim>\<open>memmove\<close> copies the entries behind the insertion point upwards
  and leaves the array below its target as it was.
\<close>

definition slot :: "ignore_t list \<Rightarrow> nat \<Rightarrow> ignore_t" where
  "slot ignore_list i = (if i < length ignore_list then ignore_list ! i else blank_ignore)"

fun first_user_pattern :: "ignore_t list \<Rightarrow> nat" where
  "first_user_pattern [] = 0"
| "first_user_pattern (ign # rest) = (if is_user_pat ign then 0 else Suc (first_user_pattern rest))"

text \<open>The loop of \<^verbatim>\<open>ign__new_pattern\<close> that writes the new rules, the \<open>i\<close>-th at
  index \<open>position + i\<close>. It stops at the first text that is refused.\<close>

fun new_patterns :: "ignore_t list \<Rightarrow> bool \<Rightarrow> nat \<Rightarrow> string list \<Rightarrow> error + ignore_t list" where
  "new_patterns ignore_list user_pattern at [] = Inr []"
| "new_patterns ignore_list user_pattern at (p # ps) =
     (case ign___init_pattern_into p (slot ignore_list at) of
        Inl e \<Rightarrow> Inl e
      | Inr ign \<Rightarrow>
          (case new_patterns ignore_list user_pattern (Suc at) ps of
             Inl e \<Rightarrow> Inl e
           | Inr rest \<Rightarrow> Inr (ign\<lparr>is_user_pat := user_pattern\<rparr> # rest)))"

text \<open>
  \<^verbatim>\<open>ign__new_pattern\<close>. Without patterns it only reserves space. An index outside
  \<open>0 \<dots> used_ignore_entries\<close> makes \<^verbatim>\<open>memmove\<close> run with a bad range just before
  \<^verbatim>\<open>BUG_ON\<close> is reached; both are the abort \<open>BUG\<close> here. When a text is refused the
  error is handed on and \<^verbatim>\<open>used_ignore_entries\<close> stays as it was; no caller goes on
  with the list after that.
\<close>

definition ign__new_pattern ::
  "string list option \<Rightarrow> bool \<Rightarrow> int \<Rightarrow> ignore_t list \<Rightarrow> error + ignore_t list" where
  "ign__new_pattern pats user_pattern position ignore_list =
     (case pats of
        None \<Rightarrow> Inr ignore_list
      | Some patterns \<Rightarrow>
          (let used_ignore_entries = int (length ignore_list);
               position =
                 (if position \<noteq> PATTERN_POSITION_END \<and> 0 < used_ignore_entries
                  then int (first_user_pattern ignore_list) + position
                  else used_ignore_entries)
           in if used_ignore_entries < position \<or> position < 0 then Inl BUG
              else
                (case new_patterns ignore_list user_pattern (nat position) patterns of
                   Inl e \<Rightarrow> Inl e
                 | Inr new \<Rightarrow>
                     Inr (take (nat position) ignore_list @ new @ drop (nat position) ignore_list))))"

section \<open>Classifying an entry\<close>

text \<open>
  \<^verbatim>\<open>struct estat\<close> and \<^verbatim>\<open>struct sstat_t\<close>, as far as the classification reads
  them: the name, the mode, the device and the inode, and the parent directory (none for
  the root). The fields of \<^verbatim>\<open>sstat_t\<close> are written \<open>st_mode\<close>, \<open>st_dev\<close> and
  \<open>st_ino\<close>. The mode is kept as its file type bits.
\<close>

datatype file_type = S_IFREG | S_IFDIR | S_IFLNK | S_IFCHR | S_IFBLK | S_IFIFO | S_IFSOCK

record sstat_t =
  st_mode :: file_type
  st_dev :: dev_t
  st_ino :: nat

datatype estat = Estat (name: string) (st: sstat_t) (parent: "estat option")

definition S_ISDIR :: "file_type \<Rightarrow> bool" where
  "S_ISDIR m = (m = S_IFDIR)"

datatype ft = FT_FILE | FT_DIR | FT_SYMLINK | FT_CDEV | FT_BDEV | FT_IGNORE

text \<open>Modelled from the spec: \<^verbatim>\<open>ops___filetype\<close> is not among the sources. A file type
  that cannot be versioned (a pipe or a socket) is \<open>FT_IGNORE\<close>.\<close>

definition ops___filetype :: "sstat_t \<Rightarrow> ft" where
  "ops___filetype s =
     (case st_mode s of
        S_IFREG \<Rightarrow> FT_FILE
      | S_IFDIR \<Rightarrow> FT_DIR
      | S_IFLNK \<Rightarrow> FT_SYMLINK
      | S_IFCHR \<Rightarrow> FT_CDEV
      | S_IFBLK \<Rightarrow> FT_BDEV
      | _ \<Rightarrow> FT_IGNORE)"

text \<open>Modelled from the spec: \<^verbatim>\<open>ops__build_path\<close> is not among the sources. It gives
  the path of the entry relative to the root of the tree, which is \<open>.\<close> itself.\<close>

fun ops__build_path :: "estat \<Rightarrow> string" where
  "ops__build_path (Estat n s None) = ''.''"
| "ops__build_path (Estat n s (Some dir)) = ops__build_path dir @ [PATH_SEPARATOR] @ n"

text \<open>Modelled from the spec: \<^verbatim>\<open>dir___f_sort_by_inodePP\<close> is not among the sources. It
  orders by device and inode, and is \<open>0\<close> for the same device and inode.\<close>

definition dir___f_sort_by_inodePP :: "dev_t \<Rightarrow> nat \<Rightarrow> estat \<Rightarrow> int" where
  "dir___f_sort_by_inodePP d i sts =
     (if d = st_dev (st sts) \<and> i = st_ino (st sts) then 0
      else if MAJOR d < MAJOR (st_dev (st sts))
              \<or> (MAJOR d = MAJOR (st_dev (st sts)) \<and> MINOR d < MINOR (st_dev (st sts)))
              \<or> (d = st_dev (st sts) \<and> i < st_ino (st sts)) then - 1
      else 1)"

definition ign___compare_dev :: "sstat_t \<Rightarrow> ignore_t \<Rightarrow> int" where
  "ign___compare_dev s ign =
     (let mj = MAJOR (st_dev s); mn = MINOR (st_dev s)
      in if major ign < mj then 2
         else if mj < major ign then - 2
         else if \<not> has_minor ign then 0
         else if minor ign < mn then 1
         else if mn < minor ign then - 1
         else 0)"

definition of_bool_int :: "bool \<Rightarrow> int" where
  "of_bool_int b = (if b then 1 else 0)"

text \<open>
  One round of the loop of \<^verbatim>\<open>ign__is_ignore\<close>: the value of \<^verbatim>\<open>status\<close> after the
  rule \<open>ign\<close> was tested, \<open>0\<close> for a match. \<open>status\<close> is what the round before left
  there: the \<^verbatim>\<open>switch\<close> over the comparator of a device rule has no default case.
\<close>

definition test_pattern :: "estat \<Rightarrow> estat \<Rightarrow> string \<Rightarrow> int \<Rightarrow> ignore_t \<Rightarrow> error + int" where
  "test_pattern sts dir cp status ign =
     (case pat_type ign of
        PT_DEVICE \<Rightarrow>
          (let s = (if S_ISDIR (st_mode (st sts)) then st dir else st sts);
               status =
                 (if compare ign = PAT_DEV__LESS then of_bool_int (ign___compare_dev s ign < 0)
                  else if compare ign = PAT_DEV__LESS + PAT_DEV__EQUAL
                    then of_bool_int (ign___compare_dev s ign \<le> 0)
                  else if compare ign = PAT_DEV__EQUAL then of_bool_int (ign___compare_dev s ign = 0)
                  else if compare ign = PAT_DEV__EQUAL + PAT_DEV__GREATER
                    then of_bool_int (0 \<le> ign___compare_dev s ign)
                  else if compare ign = PAT_DEV__GREATER then of_bool_int (0 < ign___compare_dev s ign)
                  else status)
           in Inr (of_bool_int (status = 0)))
      | PT_INODE \<Rightarrow> Inr (of_bool_int (dir___f_sort_by_inodePP (dev ign) (inode ign) sts \<noteq> 0))
      | _ \<Rightarrow>
          (case compiled ign of
             None \<Rightarrow> Inl PCRE_ERROR_NULL
           | Some re \<Rightarrow> Inr (pcre_exec re cp)))"

fun test_patterns :: "estat \<Rightarrow> estat \<Rightarrow> string \<Rightarrow> int \<Rightarrow> ignore_t list \<Rightarrow> error + int" where
  "test_patterns sts dir cp status [] = Inr 0"
| "test_patterns sts dir cp status (ign # rest) =
     (case test_pattern sts dir cp status ign of
        Inl e \<Rightarrow> Inl e
      | Inr status' \<Rightarrow>
          if status' = 0 then Inr (if is_ignore ign then 1 else - 1)
          else test_patterns sts dir cp status' rest)"

text \<open>\<^verbatim>\<open>ign__is_ignore\<close>: the result is the error, or the value stored in
  \<^verbatim>\<open>*is_ignored\<close>: \<open>+1\<close> ignored, \<open>-1\<close> taken, \<open>0\<close> not known.\<close>

definition ign__is_ignore :: "ignore_t list \<Rightarrow> estat \<Rightarrow> error + int" where
  "ign__is_ignore ignore_list sts =
     (case parent sts of
        None \<Rightarrow> Inr 0
      | Some dir \<Rightarrow>
          if ops___filetype (st sts) = FT_IGNORE then Inr 1
          else test_patterns sts dir (ops__build_path sts) 0 ignore_list)"

section \<open>Saving and loading the list\<close>

text \<open>\<^verbatim>\<open>snprintf\<close> with \<open>%u\<close>: the decimal digits of a number.\<close>

fun decimal :: "nat \<Rightarrow> string" where
  "decimal n =
     (if n < 10 then [char_of (48 + n)]
      else decimal (n div 10) @ [char_of (48 + n mod 10)])"

declare decimal.simps [simp del]

text \<open>
  \<^verbatim>\<open>ign__save_ignorelist\<close>: the text that is written to the file. \<open>HEADER_LEN\<close> is the
  size of the buffer for the header; its value is in a header file that is not among the
  sources.
\<close>

definition ign__save_ignorelist :: "nat \<Rightarrow> ignore_t list \<Rightarrow> error + string" where
  "ign__save_ignorelist HEADER_LEN ignore_list =
     (let l = length (filter is_user_pat ignore_list);
          buffer = decimal l
      in if int HEADER_LEN - 1 \<le> int (length buffer) then Inl ENOSPC
         else Inr (buffer @ [CHR 0x0A]
                   @ concat (map (\<lambda>ign. pattern ign @ [NUL] @ [CHR 0x0A])
                               (filter is_user_pat ignore_list))))"

text \<open>\<^verbatim>\<open>sscanf\<close> with \<open>%u\<close> and \<open>%d\<close>: white space, a sign, decimal digits; \<open>None\<close>
  when there is no digit. The value is the one that an \<^verbatim>\<open>int\<close> of 32 bit holds. A
  number that needs more than 32 bit is reduced modulo \<open>2 ^ 32\<close> here; what the C
  library stores for such a number is not modelled.\<close>

definition scan_int :: "string \<Rightarrow> int option" where
  "scan_int str =
     (let s = dropWhile isspace str;
          negative = (case s of [] \<Rightarrow> False | c # _ \<Rightarrow> c = CHR ''-'');
          s = (case s of [] \<Rightarrow> [] | c # r \<Rightarrow> if c = CHR ''-'' \<or> c = CHR ''+'' then r else s);
          ds = takeWhile isdigit s;
          v = digits_value 10 0 ds
      in if ds = [] then None
         else Some (to_int (if negative then 2 ^ 32 - v mod 2 ^ 32 else v)))"

text \<open>
  The loop of \<^verbatim>\<open>ign__load_list\<close> over the counted patterns. \<open>cp\<close> is the text from
  the read position to the end of the file; the pattern read is the C string that starts
  there.
\<close>

fun load_patterns :: "nat \<Rightarrow> string \<Rightarrow> ignore_t list \<Rightarrow> error + ignore_t list" where
  "load_patterns 0 cp ignore_list = Inr ignore_list"
| "load_patterns (Suc n) cp ignore_list =
     (case ign__new_pattern (Some [takeWhile (\<lambda>c. c \<noteq> NUL) cp]) True PATTERN_POSITION_END
             ignore_list of
        Inl e \<Rightarrow> Inl e
      | Inr ignore_list' \<Rightarrow>
          (let cp' = drop (length (takeWhile (\<lambda>c. c \<noteq> NUL) cp) + 1) cp
           in if cp' = [] then Inr ignore_list' else load_patterns n cp' ignore_list'))"

text \<open>
  \<^verbatim>\<open>ign__load_list\<close>: \<open>file\<close> is the content of the list file, \<open>None\<close> when there is
  no such file. The result is the status (\<open>None\<close> for \<open>0\<close>) and the list afterwards. On
  an error \<^verbatim>\<open>used_ignore_entries\<close> is set to \<open>0\<close>, which leaves the empty list.
  The file is taken to hold at least one byte, as every file that \<^verbatim>\<open>ign__save_ignorelist\<close>
  writes does: for an empty file \<^verbatim>\<open>mmap\<close> of zero bytes fails, the code tests the result
  against the null pointer only, and the read that follows is outside the model.
\<close>

definition ign__load_list :: "string option \<Rightarrow> ignore_t list \<Rightarrow> error option \<times> ignore_t list" where
  "ign__load_list file ignore_list =
     (case file of
        None \<Rightarrow> (None, ignore_list)
      | Some memory \<Rightarrow>
          if CHR 0x0A \<notin> set (takeWhile (\<lambda>c. c \<noteq> NUL) memory) then (None, ignore_list)
          else
            (case scan_int (takeWhile (\<lambda>c. c \<noteq> NUL) memory) of
               None \<Rightarrow> (Some EINVAL, [])
             | Some count \<Rightarrow>
                 (case ign__new_pattern None False 0 ignore_list of
                    Inl e \<Rightarrow> (Some e, [])
                  | Inr ignore_list' \<Rightarrow>
                      (case load_patterns (nat count)
                              (drop (length (takeWhile (\<lambda>c. c \<noteq> CHR 0x0A) memory) + 1) memory)
                              ignore_list' of
                         Inl e \<Rightarrow> (Some e, [])
                       | Inr ignore_list'' \<Rightarrow> (None, ignore_list'')))))"

section \<open>The command that adds rules\<close>

text \<open>\<^verbatim>\<open>sscanf(argv[0], "at=%d", &i) == 1\<close>.\<close>

definition scan_at :: "string \<Rightarrow> int option" where
  "scan_at arg = (if take 3 arg = ''at='' then scan_int (drop 3 arg) else None)"

text \<open>
  The part of \<^verbatim>\<open>ign__work\<close> that adds the patterns of the command line to the list
  that was loaded: \<open>arg\<close> is \<^verbatim>\<open>argv[0]\<close>, \<open>args\<close> are the arguments behind it.
\<close>

definition ign__work :: "string \<Rightarrow> string list \<Rightarrow> ignore_t list \<Rightarrow> error + ignore_t list" where
  "ign__work arg args ignore_list =
     (if arg = ''prepend'' then
        ign__new_pattern (Some args) True PATTERN_POSITION_START ignore_list
      else
        (case scan_at arg of
           Some i \<Rightarrow>
             if int (length ignore_list) < i then Inl EINVAL
             else ign__new_pattern (Some args) True i ignore_list
         | None \<Rightarrow>
             if arg = ''append'' then
               ign__new_pattern (Some args) True PATTERN_POSITION_END ignore_list
             else ign__new_pattern (Some (arg # args)) True PATTERN_POSITION_END ignore_list))"

section \<open>The bracket expression, as the specification words it\<close>

text \<open>
  The specification of the bracket expression, read off its words: the text behind the
  opening bracket starts with the negation marks, each written as \<open>^\<close>, which are no
  content; then the content follows, in which a backslash takes the next character
  with it, and a closing bracket ends the expression unless it is the first character of
  the content. The result is the text written and the pattern text left.
\<close>

fun bracket_content :: "bool \<Rightarrow> string \<Rightarrow> string \<times> string" where
  "bracket_content seen [] = ([], [])"
| "bracket_content seen (c # s) =
     (if c = CHR 0x5C then
        (case s of
           [] \<Rightarrow> ([c], [])
         | e # s' \<Rightarrow> (case bracket_content True s' of (out, rest) \<Rightarrow> (c # e # out, rest)))
      else if c = CHR '']'' \<and> seen then ([c], s)
      else (case bracket_content True s of (out, rest) \<Rightarrow> (c # out, rest)))"

definition is_negation :: "char \<Rightarrow> bool" where
  "is_negation c = (c = CHR ''!'' \<or> c = CHR ''^'')"

definition bracket_spec :: "string \<Rightarrow> string \<times> string" where
  "bracket_spec s =
     (case bracket_content False (dropWhile is_negation s) of
        (out, rest) \<Rightarrow> (CHR ''['' # map (\<lambda>_. CHR ''^'') (takeWhile is_negation s) @ out, rest))"

section \<open>Properties of the bracket expression\<close>

lemma bracket_loop_content:
  "int (length s) + 5 \<le> room \<Longrightarrow> 0 < pos \<or> (pos = 0 \<and> seen = False \<and> (s = [] \<or> \<not> is_negation (hd s))) \<Longrightarrow> (0 < pos \<longrightarrow> seen) \<Longrightarrow>
   bracket_loop room pos False s = Inr (bracket_content seen s)"
proof (induction seen s arbitrary: room pos rule: bracket_content.induct)
  case (1 seen)
  then show ?case by simp
next
  case (2 seen c s)
  show ?case
  proof (cases "c = CHR 0x5C")
    case True
    show ?thesis
    proof (cases s)
      case Nil
      with True 2(3,4,5) show ?thesis by (auto simp: is_negation_def)
    next
      case (Cons e s')
      have "bracket_loop (room - 2) (pos + 1) False s' = Inr (bracket_content True s')"
        using 2(1)[OF True Cons, of "room - 2" "pos + 1"] 2(3,4) Cons by auto
      with True Cons 2(3,4,5) show ?thesis by (auto simp: is_negation_def split: prod.splits)
    qed
  next
    case nb: False
    show ?thesis
    proof (cases "c = CHR '']'' \<and> seen")
      case True
      with nb 2(3,4,5) show ?thesis by (auto simp: is_negation_def)
    next
      case False
      have "bracket_loop (room - 1) (pos + 1) False s = Inr (bracket_content True s)"
        using 2(2)[OF nb False, of "room - 1" "pos + 1"] 2(3,4) by auto
      with nb False 2(3,4,5) show ?thesis by (auto simp: is_negation_def split: prod.splits)
    qed
  qed
qed

lemma bracket_loop_negation:
  "int (length s) + 5 \<le> room \<Longrightarrow>
   bracket_loop room 0 False s =
     (case bracket_content False (dropWhile is_negation s) of
        (out, rest) \<Rightarrow> Inr (map (\<lambda>_. CHR ''^'') (takeWhile is_negation s) @ out, rest))"
proof (induction s arbitrary: room)
  case Nil
  then show ?case by simp
next
  case (Cons c s)
  show ?case
  proof (cases "is_negation c")
    case True
    have "bracket_loop (room - 1) 0 False s =
     (case bracket_content False (dropWhile is_negation s) of
        (out, rest) \<Rightarrow> Inr (map (\<lambda>_. CHR ''^'') (takeWhile is_negation s) @ out, rest))"
      using Cons.IH[of "room - 1"] Cons.prems by simp
    moreover from True have "c = CHR ''!'' \<or> c = CHR ''^''" by (simp add: is_negation_def)
    ultimately show ?thesis using True Cons.prems by (auto split: prod.splits)
  next
    case False
    have "bracket_loop room 0 False (c # s) = Inr (bracket_content False (c # s))"
      using bracket_loop_content[of "c # s" room 0 False] Cons.prems False by simp
    with False show ?thesis by (simp split: prod.splits)
  qed
qed

text \<open>
  Claim C8. In a bracket expression a \<open>!\<close> or \<open>^\<close> at the first content position is
  written as \<open>^\<close> and is no content; a \<open>]\<close> closes the expression only after at least
  one content character, so that a \<open>]\<close> as first content character or behind a backslash
  is copied; every other character is copied, a backslash taking the character behind
  it along. That is: with room left in the buffer, \<^verbatim>\<open>ign___translate_bracketed_expr\<close>
  writes what the specification of the bracket expression says, and leaves the same rest
  of the pattern.
\<close>

theorem bracket_expr_refines_spec:
  assumes "int (length s) + 6 \<le> room"
  shows "ign___translate_bracketed_expr room (CHR ''['' # s) = Inr (bracket_spec s)"
proof -
  have "bracket_loop (room - 1) 0 False s =
     (case bracket_content False (dropWhile is_negation s) of
        (out, rest) \<Rightarrow> Inr (map (\<lambda>_. CHR ''^'') (takeWhile is_negation s) @ out, rest))"
    using bracket_loop_negation[of s "room - 1"] assms by simp
  with assms show ?thesis
    by (simp add: ign___translate_bracketed_expr_def bracket_spec_def split: prod.splits)
qed

theorem bracket_expr_refines_spec_witness:
  "int (length ''!]a*]/c'') + 6 \<le> 40
   \<and> ign___translate_bracketed_expr 40 ''[!]a*]/c'' = Inr (''[^]a*]'', ''/c'')
   \<and> ign___translate_bracketed_expr 40 (''[a'' @ [CHR 0x5C] @ '']b]c'')
       = Inr (''[a'' @ [CHR 0x5C] @ '']b]'', ''c'')"
  using bracket_expr_refines_spec[of "''!]a*]/c''" 40]
    bracket_expr_refines_spec[of "''a'' @ [CHR 0x5C] @ '']b]c''" 40]
  by (simp add: bracket_spec_def is_negation_def)

section \<open>Properties of the classification\<close>

text \<open>
  Claim C10. An entry without a parent, the root of the tree, is not classified: the
  result is \<open>0\<close> whatever the rule list holds, and no rule is tested.
\<close>

theorem root_is_not_classified:
  "ign__is_ignore ignore_list (Estat n s None) = Inr 0"
  by (simp add: ign__is_ignore_def)

section \<open>Device rules\<close>

lemmas init_device_eval =
  ign___init_pattern_into_def init_device_def isspace_def strtoul_def convert_def
  digit_value_def isdigit_def islower_def isupper_def to_int_def set_flag_def Let_def
  PAT_DEV__EQUAL_def PAT_DEV__UNSPECIFIED_def PAT_DEV__LESS_def PAT_DEV__GREATER_def

lemma init_device_3:
  "ign___init_pattern_into ''DEVICE:3'' sl =
     Inr (sl\<lparr>pattern := ''DEVICE:3'', is_ignore := True, is_icase := False, pat_type := PT_DEVICE,
             compare_string := ''DEVICE:3'', compare := PAT_DEV__EQUAL, major := 3,
             minor := 0, has_minor := False\<rparr>)"
  by (simp add: init_device_eval)

lemma init_device_less_3:
  "ign___init_pattern_into ''DEVICE:<3'' sl =
     Inr (sl\<lparr>pattern := ''DEVICE:<3'', is_ignore := True, is_icase := False, pat_type := PT_DEVICE,
             compare_string := ''DEVICE:<3'', compare := PAT_DEV__LESS, major := 3,
             minor := 0, has_minor := False\<rparr>)"
  by (simp add: init_device_eval)

lemma init_device_3_1:
  "ign___init_pattern_into ''DEVICE:3:1'' sl =
     Inr (sl\<lparr>pattern := ''DEVICE:3:1'', is_ignore := True, is_icase := False, pat_type := PT_DEVICE,
             compare_string := ''DEVICE:3:1'', compare := PAT_DEV__EQUAL, major := 3,
             minor := 1, has_minor := True\<rparr>)"
  by (simp add: init_device_eval)

lemmas dev_consts = PAT_DEV__EQUAL_def PAT_DEV__UNSPECIFIED_def PAT_DEV__LESS_def PAT_DEV__GREATER_def

lemma test_device_equal:
  "pat_type ign = PT_DEVICE \<Longrightarrow> compare ign = PAT_DEV__EQUAL \<Longrightarrow>
   (test_pattern sts dir cp status ign = Inr 0) =
   (let d = (if S_ISDIR (st_mode (st sts)) then st_dev (st dir) else st_dev (st sts))
    in MAJOR d = major ign \<and> (has_minor ign \<longrightarrow> MINOR d = minor ign))"
  by (auto simp: test_pattern_def ign___compare_dev_def of_bool_int_def dev_consts Let_def)

lemma test_device_less:
  "pat_type ign = PT_DEVICE \<Longrightarrow> compare ign = PAT_DEV__LESS \<Longrightarrow>
   (test_pattern sts dir cp status ign = Inr 0) =
   (let d = (if S_ISDIR (st_mode (st sts)) then st_dev (st dir) else st_dev (st sts))
    in MAJOR d < major ign \<or> (MAJOR d = major ign \<and> has_minor ign \<and> MINOR d < minor ign))"
  by (auto simp: test_pattern_def ign___compare_dev_def of_bool_int_def dev_consts Let_def)

lemma test_device_greater:
  "pat_type ign = PT_DEVICE \<Longrightarrow> compare ign = PAT_DEV__GREATER \<Longrightarrow>
   (test_pattern sts dir cp status ign = Inr 0) =
   (let d = (if S_ISDIR (st_mode (st sts)) then st_dev (st dir) else st_dev (st sts))
    in major ign < MAJOR d \<or> (MAJOR d = major ign \<and> has_minor ign \<and> minor ign < MINOR d))"
  by (auto simp: test_pattern_def ign___compare_dev_def of_bool_int_def dev_consts Let_def)

lemma test_device_less_equal:
  "pat_type ign = PT_DEVICE \<Longrightarrow> compare ign = PAT_DEV__LESS + PAT_DEV__EQUAL \<Longrightarrow>
   (test_pattern sts dir cp status ign = Inr 0) =
   (let d = (if S_ISDIR (st_mode (st sts)) then st_dev (st dir) else st_dev (st sts))
    in MAJOR d < major ign \<or> (MAJOR d = major ign \<and> (has_minor ign \<longrightarrow> MINOR d \<le> minor ign)))"
  by (auto simp: test_pattern_def ign___compare_dev_def of_bool_int_def dev_consts Let_def)

lemma test_device_greater_equal:
  "pat_type ign = PT_DEVICE \<Longrightarrow> compare ign = PAT_DEV__EQUAL + PAT_DEV__GREATER \<Longrightarrow>
   (test_pattern sts dir cp status ign = Inr 0) =
   (let d = (if S_ISDIR (st_mode (st sts)) then st_dev (st dir) else st_dev (st sts))
    in major ign < MAJOR d \<or> (MAJOR d = major ign \<and> (has_minor ign \<longrightarrow> minor ign \<le> MINOR d)))"
  by (auto simp: test_pattern_def ign___compare_dev_def of_bool_int_def dev_consts Let_def)

lemma is_ignore_single:
  "parent sts = Some dir \<Longrightarrow> ops___filetype (st sts) \<noteq> FT_IGNORE \<Longrightarrow>
   test_pattern sts dir (ops__build_path sts) 0 ign = Inr v \<Longrightarrow>
   ign__is_ignore [ign] sts = Inr (if v = 0 then (if is_ignore ign then 1 else - 1) else 0)"
  by (simp add: ign__is_ignore_def)

text \<open>
  A device rule whose comparator is one of the five that the \<^verbatim>\<open>switch\<close> knows is
  compared with the device of the parent directory when the entry is a directory, and
  with the device of the entry itself otherwise. With \<open>d\<close>
  that device: each of the five comparators orders the pair of major and minor number
  of \<open>d\<close> against the numbers of the rule, the minor number counting only when the rule
  has one; the rule \<open>DEVICE:3\<close> matches exactly when the major number of \<open>d\<close> is \<open>3\<close>,
  whatever the minor number; \<open>DEVICE:<3\<close> exactly when the major number is less than
  \<open>3\<close>; \<open>DEVICE:3:1\<close> exactly for major number \<open>3\<close> and minor number \<open>1\<close>.
\<close>

theorem device_rule_compares_device_numbers:
  assumes "parent sts = Some dir"
    and "ops___filetype (st sts) \<noteq> FT_IGNORE"
    and "d = (if S_ISDIR (st_mode (st sts)) then st_dev (st dir) else st_dev (st sts))"
  shows
    "(\<forall>ign status cp. pat_type ign = PT_DEVICE \<and> compare ign = PAT_DEV__EQUAL \<longrightarrow>
        (test_pattern sts dir cp status ign = Inr 0)
        = (MAJOR d = major ign \<and> (has_minor ign \<longrightarrow> MINOR d = minor ign)))
     \<and> (\<forall>ign status cp. pat_type ign = PT_DEVICE \<and> compare ign = PAT_DEV__LESS \<longrightarrow>
        (test_pattern sts dir cp status ign = Inr 0)
        = (MAJOR d < major ign \<or> (MAJOR d = major ign \<and> has_minor ign \<and> MINOR d < minor ign)))
     \<and> (\<forall>ign status cp. pat_type ign = PT_DEVICE \<and> compare ign = PAT_DEV__GREATER \<longrightarrow>
        (test_pattern sts dir cp status ign = Inr 0)
        = (major ign < MAJOR d \<or> (MAJOR d = major ign \<and> has_minor ign \<and> minor ign < MINOR d)))
     \<and> (\<forall>ign status cp. pat_type ign = PT_DEVICE \<and> compare ign = PAT_DEV__LESS + PAT_DEV__EQUAL \<longrightarrow>
        (test_pattern sts dir cp status ign = Inr 0)
        = (MAJOR d < major ign \<or> (MAJOR d = major ign \<and> (has_minor ign \<longrightarrow> MINOR d \<le> minor ign))))
     \<and> (\<forall>ign status cp. pat_type ign = PT_DEVICE \<and> compare ign = PAT_DEV__EQUAL + PAT_DEV__GREATER \<longrightarrow>
        (test_pattern sts dir cp status ign = Inr 0)
        = (major ign < MAJOR d \<or> (MAJOR d = major ign \<and> (has_minor ign \<longrightarrow> minor ign \<le> MINOR d))))
     \<and> (\<exists>ign. ign___init_pattern_into ''DEVICE:3'' sl = Inr ign
            \<and> ign__is_ignore [ign] sts = Inr (if MAJOR d = 3 then 1 else 0))
     \<and> (\<exists>ign. ign___init_pattern_into ''DEVICE:<3'' sl = Inr ign
            \<and> ign__is_ignore [ign] sts = Inr (if MAJOR d < 3 then 1 else 0))
     \<and> (\<exists>ign. ign___init_pattern_into ''DEVICE:3:1'' sl = Inr ign
            \<and> ign__is_ignore [ign] sts = Inr (if MAJOR d = 3 \<and> MINOR d = 1 then 1 else 0))"
proof -
  let ?cp = "ops__build_path sts"
  have eq: "\<And>ign status cp. pat_type ign = PT_DEVICE \<Longrightarrow> compare ign = PAT_DEV__EQUAL \<Longrightarrow>
      (test_pattern sts dir cp status ign = Inr 0)
      = (MAJOR d = major ign \<and> (has_minor ign \<longrightarrow> MINOR d = minor ign))"
    using test_device_equal[of _ sts dir] assms(3) by (simp add: Let_def)
  have less: "\<And>ign status cp. pat_type ign = PT_DEVICE \<Longrightarrow> compare ign = PAT_DEV__LESS \<Longrightarrow>
      (test_pattern sts dir cp status ign = Inr 0)
      = (MAJOR d < major ign \<or> (MAJOR d = major ign \<and> has_minor ign \<and> MINOR d < minor ign))"
    using test_device_less[of _ sts dir] assms(3) by (simp add: Let_def)
  have greater: "\<And>ign status cp. pat_type ign = PT_DEVICE \<Longrightarrow> compare ign = PAT_DEV__GREATER \<Longrightarrow>
      (test_pattern sts dir cp status ign = Inr 0)
      = (major ign < MAJOR d \<or> (MAJOR d = major ign \<and> has_minor ign \<and> minor ign < MINOR d))"
    using test_device_greater[of _ sts dir] assms(3) by (simp add: Let_def)
  have le: "\<And>ign status cp. pat_type ign = PT_DEVICE \<Longrightarrow> compare ign = PAT_DEV__LESS + PAT_DEV__EQUAL \<Longrightarrow>
      (test_pattern sts dir cp status ign = Inr 0)
      = (MAJOR d < major ign \<or> (MAJOR d = major ign \<and> (has_minor ign \<longrightarrow> MINOR d \<le> minor ign)))"
    using test_device_less_equal[of _ sts dir] assms(3) by (simp add: Let_def)
  have ge: "\<And>ign status cp. pat_type ign = PT_DEVICE \<Longrightarrow> compare ign = PAT_DEV__EQUAL + PAT_DEV__GREATER \<Longrightarrow>
      (test_pattern sts dir cp status ign = Inr 0)
      = (major ign < MAJOR d \<or> (MAJOR d = major ign \<and> (has_minor ign \<longrightarrow> minor ign \<le> MINOR d)))"
    using test_device_greater_equal[of _ sts dir] assms(3) by (simp add: Let_def)
  have single: "\<And>ign. \<exists>v. test_pattern sts dir ?cp 0 ign = Inr v \<Longrightarrow>
      ign__is_ignore [ign] sts
      = Inr (if test_pattern sts dir ?cp 0 ign = Inr 0 then (if is_ignore ign then 1 else - 1) else 0)"
    using is_ignore_single[OF assms(1,2)] by auto
  have dev: "\<And>ign. pat_type ign = PT_DEVICE \<Longrightarrow> \<exists>v. test_pattern sts dir ?cp 0 ign = Inr v"
    by (simp add: test_pattern_def Let_def)
  let ?r3 = "sl\<lparr>pattern := ''DEVICE:3'', is_ignore := True, is_icase := False,
      pat_type := PT_DEVICE, compare_string := ''DEVICE:3'', compare := PAT_DEV__EQUAL, major := 3,
      minor := 0, has_minor := False\<rparr>"
  let ?rl = "sl\<lparr>pattern := ''DEVICE:<3'', is_ignore := True, is_icase := False,
      pat_type := PT_DEVICE, compare_string := ''DEVICE:<3'', compare := PAT_DEV__LESS, major := 3,
      minor := 0, has_minor := False\<rparr>"
  let ?r31 = "sl\<lparr>pattern := ''DEVICE:3:1'', is_ignore := True, is_icase := False,
      pat_type := PT_DEVICE, compare_string := ''DEVICE:3:1'', compare := PAT_DEV__EQUAL, major := 3,
      minor := 1, has_minor := True\<rparr>"
  have a: "ign__is_ignore [?r3] sts = Inr (if MAJOR d = 3 then 1 else 0)"
    using single[OF dev, of ?r3] eq[of ?r3 ?cp 0] by simp
  have b: "ign__is_ignore [?rl] sts = Inr (if MAJOR d < 3 then 1 else 0)"
    using single[OF dev, of ?rl] less[of ?rl ?cp 0] by simp
  have c: "ign__is_ignore [?r31] sts = Inr (if MAJOR d = 3 \<and> MINOR d = 1 then 1 else 0)"
    using single[OF dev, of ?r31] eq[of ?r31 ?cp 0] by simp
  have a': "\<exists>ign. ign___init_pattern_into ''DEVICE:3'' sl = Inr ign
            \<and> ign__is_ignore [ign] sts = Inr (if MAJOR d = 3 then 1 else 0)"
    using a init_device_3[of sl] by blast
  have b': "\<exists>ign. ign___init_pattern_into ''DEVICE:<3'' sl = Inr ign
            \<and> ign__is_ignore [ign] sts = Inr (if MAJOR d < 3 then 1 else 0)"
    using b init_device_less_3[of sl] by blast
  have c': "\<exists>ign. ign___init_pattern_into ''DEVICE:3:1'' sl = Inr ign
            \<and> ign__is_ignore [ign] sts = Inr (if MAJOR d = 3 \<and> MINOR d = 1 then 1 else 0)"
    using c init_device_3_1[of sl] by blast
  show ?thesis
    using eq less greater le ge a' b' c' by blast
qed

text \<open>A directory that is a mount point: its own device has major number \<open>8\<close>, its
  parent lies on a device with major number \<open>3\<close>; the rule \<open>DEVICE:3\<close> matches it.\<close>

theorem device_rule_compares_device_numbers_witness:
  "\<exists>ign. ign___init_pattern_into ''DEVICE:3'' blank_ignore = Inr ign
     \<and> ign__is_ignore [ign]
          (Estat ''mnt'' \<lparr>st_mode = S_IFDIR, st_dev = MKDEV 8 1, st_ino = 5\<rparr>
             (Some (Estat ''.'' \<lparr>st_mode = S_IFDIR, st_dev = MKDEV 3 1, st_ino = 2\<rparr> None)))
        = Inr 1"
proof -
  let ?root = "Estat ''.'' \<lparr>st_mode = S_IFDIR, st_dev = MKDEV 3 1, st_ino = 2\<rparr> None"
  let ?mnt = "Estat ''mnt'' \<lparr>st_mode = S_IFDIR, st_dev = MKDEV 8 1, st_ino = 5\<rparr> (Some ?root)"
  have h1: "parent ?mnt = Some ?root" by simp
  have h2: "ops___filetype (st ?mnt) \<noteq> FT_IGNORE" by (simp add: ops___filetype_def)
  have h3: "MKDEV 3 1 = (if S_ISDIR (st_mode (st ?mnt)) then st_dev (st ?root) else st_dev (st ?mnt))"
    by (simp add: S_ISDIR_def)
  from device_rule_compares_device_numbers[OF h1 h2 h3, of blank_ignore]
  show ?thesis by simp
qed

section \<open>The shell rules of the examples\<close>

lemma translate_a_star:
  "translate_shell ''./a/*'' ''./a/*'' = Inr (CHR 0x5C # ''./a/[^/]*$'', False)"
  by code_simp

lemma translate_a_starstar:
  "translate_shell ''./a/**'' ''./a/**'' = Inr (CHR 0x5C # ''./a/.*$'', True)"
  by code_simp

lemma translate_a_slash:
  "translate_shell ''./a/'' ''./a/'' = Inr (CHR 0x5C # ''./a($|/)'', False)"
  by code_simp

lemma translate_a:
  "translate_shell ''./a'' ''./a'' = Inr (CHR 0x5C # ''./a$'', False)"
  by code_simp

lemma translate_starstar:
  "translate_shell ''./**'' ''./**'' = Inr (CHR 0x5C # ''./.*$'', True)"
  by code_simp

lemma translate_keep:
  "translate_shell ''t./keep.txt'' ''./keep.txt'' = Inr ([CHR 0x5C, CHR ''.'', CHR ''/'', CHR ''k'', CHR ''e'', CHR ''e'', CHR ''p'', CHR 0x5C, CHR ''.'', CHR ''t'', CHR ''x'', CHR ''t'', CHR ''$''], False)"
  by code_simp

definition re_a_star :: pcre where
  "re_a_star = Pcre False
     [Piece (One (Lit CHR ''.'')), Piece (One (Lit CHR ''/'')), Piece (One (Lit CHR ''a'')),
      Piece (One (Lit CHR ''/'')), Piece (Star (CharClass True [(CHR ''/'', CHR ''/'')])), Piece Dollar]"

definition re_a_starstar :: pcre where
  "re_a_starstar = Pcre False
     [Piece (One (Lit CHR ''.'')), Piece (One (Lit CHR ''/'')), Piece (One (Lit CHR ''a'')),
      Piece (One (Lit CHR ''/'')), Piece (Star AnyChar), Piece Dollar]"

definition re_a_slash :: pcre where
  "re_a_slash = Pcre False
     [Piece (One (Lit CHR ''.'')), Piece (One (Lit CHR ''/'')), Piece (One (Lit CHR ''a'')),
      Group [[Dollar], [One (Lit CHR ''/'')]]]"

definition re_a :: pcre where
  "re_a = Pcre False
     [Piece (One (Lit CHR ''.'')), Piece (One (Lit CHR ''/'')), Piece (One (Lit CHR ''a'')), Piece Dollar]"

definition re_starstar :: pcre where
  "re_starstar = Pcre False
     [Piece (One (Lit CHR ''.'')), Piece (One (Lit CHR ''/'')), Piece (Star AnyChar), Piece Dollar]"

definition re_keep :: pcre where
  "re_keep = Pcre False
     (map (\<lambda>c. Piece (One (Lit c))) ''./keep.txt'' @ [Piece Dollar])"

lemma compile_a_star: "pcre_compile (CHR 0x5C # ''./a/[^/]*$'') False = Some re_a_star"
  by code_simp

lemma compile_a_starstar: "pcre_compile (CHR 0x5C # ''./a/.*$'') False = Some re_a_starstar"
  by code_simp

lemma compile_a_slash: "pcre_compile (CHR 0x5C # ''./a($|/)'') False = Some re_a_slash"
  by code_simp

lemma compile_a: "pcre_compile (CHR 0x5C # ''./a$'') False = Some re_a"
  by code_simp

lemma compile_starstar: "pcre_compile (CHR 0x5C # ''./.*$'') False = Some re_starstar"
  by code_simp

lemma compile_keep:
  "pcre_compile [CHR 0x5C, CHR ''.'', CHR ''/'', CHR ''k'', CHR ''e'', CHR ''e'', CHR ''p'', CHR 0x5C, CHR ''.'', CHR ''t'', CHR ''x'', CHR ''t'', CHR ''$''] False = Some re_keep"
  by code_simp

lemmas init_shell_eval =
  ign___init_pattern_into_def init_regex_def ign__compile_pattern_def isspace_def PATH_SEPARATOR_def

lemma init_a_star:
  "ign___init_pattern_into ''./a/*'' sl
   = Inr (sl\<lparr>pattern := ''./a/*'', is_ignore := True, is_icase := False, pat_type := PT_SHELL,
            path_level := 2, has_wildwildcard := False,
            compare_string := CHR 0x5C # ''./a/[^/]*$'', compiled := Some re_a_star\<rparr>)"
  by (simp add: init_shell_eval translate_a_star compile_a_star)

lemma init_a_starstar:
  "ign___init_pattern_into ''./a/**'' sl
   = Inr (sl\<lparr>pattern := ''./a/**'', is_ignore := True, is_icase := False, pat_type := PT_SHELL,
            path_level := 2, has_wildwildcard := True,
            compare_string := CHR 0x5C # ''./a/.*$'', compiled := Some re_a_starstar\<rparr>)"
  by (simp add: init_shell_eval translate_a_starstar compile_a_starstar)

lemma init_a_slash:
  "ign___init_pattern_into ''./a/'' sl
   = Inr (sl\<lparr>pattern := ''./a/'', is_ignore := True, is_icase := False, pat_type := PT_SHELL,
            path_level := 2, has_wildwildcard := False,
            compare_string := CHR 0x5C # ''./a($|/)'', compiled := Some re_a_slash\<rparr>)"
  by (simp add: init_shell_eval translate_a_slash compile_a_slash)

lemma init_a:
  "ign___init_pattern_into ''./a'' sl
   = Inr (sl\<lparr>pattern := ''./a'', is_ignore := True, is_icase := False, pat_type := PT_SHELL,
            path_level := 1, has_wildwildcard := False,
            compare_string := CHR 0x5C # ''./a$'', compiled := Some re_a\<rparr>)"
  by (simp add: init_shell_eval translate_a compile_a)

lemma init_starstar:
  "ign___init_pattern_into ''./**'' sl
   = Inr (sl\<lparr>pattern := ''./**'', is_ignore := True, is_icase := False, pat_type := PT_SHELL,
            path_level := 1, has_wildwildcard := True,
            compare_string := CHR 0x5C # ''./.*$'', compiled := Some re_starstar\<rparr>)"
  by (simp add: init_shell_eval translate_starstar compile_starstar)

lemma init_keep:
  "ign___init_pattern_into ''t./keep.txt'' sl
   = Inr (sl\<lparr>pattern := ''t./keep.txt'', is_ignore := False, is_icase := False, pat_type := PT_SHELL,
            path_level := 1, has_wildwildcard := False,
            compare_string := [CHR 0x5C, CHR ''.'', CHR ''/'', CHR ''k'', CHR ''e'', CHR ''e'', CHR ''p'', CHR 0x5C, CHR ''.'', CHR ''t'', CHR ''x'', CHR ''t'', CHR ''$''], compiled := Some re_keep\<rparr>)"
  by (simp add: init_shell_eval translate_keep compile_keep)

lemma concat_map_empty: "(concat (map f xs) = []) = (\<forall>x\<in>set xs. f x = [])"
  by (induction xs) auto

lemma match_star_any: "[] \<in> set (match_star ci AnyChar s)"
  by (induction s) auto

lemma any_to_the_end: "match_items ci [Piece (Star AnyChar), Piece Dollar] s \<noteq> []"
  using match_star_any[of ci s] by (auto simp: concat_map_empty)


lemma a_starstar_below: "pcre_exec re_a_starstar (''./a/'' @ s) = 0"
proof -
  have "match_items False (items re_a_starstar) (''./a/'' @ s)
        = match_items False [Piece (Star AnyChar), Piece Dollar] s"
    by (simp add: re_a_starstar_def)
  then have "match_items False (items re_a_starstar) (''./a/'' @ s) \<noteq> []"
    by (simp only: any_to_the_end not_False_eq_True)
  moreover have "caseless re_a_starstar = False"
    by (simp add: re_a_starstar_def)
  ultimately show ?thesis
    by (simp add: pcre_exec_def)
qed

lemma a_slash_below: "pcre_exec re_a_slash (''./a/'' @ s) = 0"
  by (simp add: pcre_exec_def re_a_slash_def)

lemma a_slash_self: "pcre_exec re_a_slash ''./a'' = 0"
  by (simp add: pcre_exec_def re_a_slash_def)

lemma a_not_below: "pcre_exec re_a (''./a/'' @ s) = PCRE_ERROR_NOMATCH"
  by (simp add: pcre_exec_def re_a_def)

lemma a_self: "pcre_exec re_a ''./a'' = 0"
  by (simp add: pcre_exec_def re_a_def)

section \<open>The wildcard for one directory level\<close>

lemma of_char_slash: "((of_char c :: nat) = 47) = (c = CHR ''/'')"
proof -
  have "(of_char CHR ''/'' :: nat) = 47" by simp
  then show ?thesis by (metis of_char_eq_iff)
qed

lemma of_char_tolower:
  "(of_char (tolower c) :: nat) = (if isupper c then of_char c + 32 else of_char c)"
  by (simp add: tolower_def isupper_def Let_def of_char_of)

lemma of_char_toupper:
  "(of_char (toupper c) :: nat) = (if islower c then of_char c - 32 else of_char c)"
proof (cases "islower c")
  case True
  then have "(of_char c :: nat) - 32 < 256" unfolding islower_def Let_def by arith
  with True show ?thesis by (simp add: toupper_def of_char_of)
next
  case False
  then show ?thesis by (simp add: toupper_def)
qed

lemma not_separator_ok:
  "atom_ok ci (CharClass True [(CHR ''/'', CHR ''/'')]) c = (c \<noteq> CHR ''/'')"
proof -
  have a: "in_ranges [(CHR ''/'', CHR ''/'')] x = ((of_char x :: nat) = 47)" for x
    by (auto simp: in_ranges_def)
  have b: "(of_char (tolower c) :: nat) = 47 \<Longrightarrow> (of_char c :: nat) = 47"
    by (auto simp: of_char_tolower isupper_def Let_def split: if_splits)
  have c: "(of_char (toupper c) :: nat) = 47 \<Longrightarrow> (of_char c :: nat) = 47"
    by (auto simp: of_char_toupper islower_def Let_def split: if_splits)
  show ?thesis
    using b c by (auto simp: a of_char_slash[symmetric])
qed

lemma match_star_not_separator:
  "set (match_star ci (CharClass True [(CHR ''/'', CHR ''/'')]) s)
   = {r. \<exists>p. s = p @ r \<and> CHR ''/'' \<notin> set p}"
proof (induction s)
  case Nil
  then show ?case by auto
next
  case (Cons c s)
  show ?case
  proof (cases "c = CHR ''/''")
    case True
    have "{r. \<exists>p. c # s = p @ r \<and> CHR ''/'' \<notin> set p} = {c # s}"
      using True by (auto simp: Cons_eq_append_conv)
    with True show ?thesis by (simp add: not_separator_ok del: atom_ok.simps)
  next
    case False
    have "{r. \<exists>p. c # s = p @ r \<and> CHR ''/'' \<notin> set p}
          = insert (c # s) {r. \<exists>p. s = p @ r \<and> CHR ''/'' \<notin> set p}"
      using False by (auto simp: Cons_eq_append_conv) 
    with False Cons.IH show ?thesis by (simp add: not_separator_ok del: atom_ok.simps)
  qed
qed

lemma dollar_after_star_class:
  "(match_items ci [Piece (Star (CharClass True [(CHR ''/'', CHR ''/'')])), Piece Dollar] n \<noteq> [])
   = (CHR ''/'' \<notin> set n)"
proof -
  let ?cls = "CharClass True [(CHR ''/'', CHR ''/'')]"
  have "(match_items ci [Piece (Star ?cls), Piece Dollar] n \<noteq> [])
        = (\<exists>r\<in>set (match_star ci ?cls n). r = [] \<or> r = [CHR 0x0A])"
    by (auto simp: concat_map_empty)
  also have "\<dots> = (\<exists>p r. n = p @ r \<and> CHR ''/'' \<notin> set p \<and> (r = [] \<or> r = [CHR 0x0A]))"
    unfolding match_star_not_separator by auto
  also have "\<dots> = (CHR ''/'' \<notin> set n)"
    by auto
  finally show ?thesis .
qed

lemma a_star_one_level: "(pcre_exec re_a_star (''./a/'' @ n) = 0) = (CHR ''/'' \<notin> set n)"
proof -
  have "match_items False (items re_a_star) (''./a/'' @ n)
        = match_items False [Piece (Star (CharClass True [(CHR ''/'', CHR ''/'')])), Piece Dollar] n"
    by (simp add: re_a_star_def)
  moreover have "caseless re_a_star = False"
    by (simp add: re_a_star_def)
  ultimately show ?thesis
    using dollar_after_star_class[of False n]
    by (simp add: pcre_exec_def PCRE_ERROR_NOMATCH_def del: match_items.simps)
qed

text \<open>
  Claim C6. The rule \<open>./a/*\<close> is translated to the expression \<open>\./a/[^/]*$\<close>; its
  matcher matches \<open>./a/b\<close> and \<open>./a/.hidden\<close> and not \<open>./a/b/c\<close>; it matches a path
  \<open>./a/n\<close> exactly when \<open>n\<close> holds no path separator. A single \<open>*\<close> that the translation
  reads is written as \<open>[^/]*\<close>, which stands for the sequences of characters other than
  the path separator.
\<close>

theorem single_star_stays_in_one_level:
  "(\<exists>ign re. ign___init_pattern_into ''./a/*'' sl = Inr ign
        \<and> compare_string ign = CHR 0x5C # ''./a/[^/]*$'' \<and> \<not> has_wildwildcard ign
        \<and> compiled ign = Some re
        \<and> pcre_exec re ''./a/b'' = 0 \<and> pcre_exec re ''./a/.hidden'' = 0
        \<and> pcre_exec re ''./a/b/c'' = PCRE_ERROR_NOMATCH
        \<and> (\<forall>n. (pcre_exec re (''./a/'' @ n) = 0) = (CHR ''/'' \<notin> set n)))
   \<and> (\<forall>room c src. c \<noteq> CHR ''*'' \<longrightarrow>
         shell_step room False CHR ''*'' (c # src) = Inr (''[^/]*'', False, False, c # src))
   \<and> (\<forall>room. shell_step room False CHR ''*'' [] = Inr (''[^/]*'', False, False, []))
   \<and> parse_pieces ''[^/]*'' = Some ([Star (CharClass True [(CHR ''/'', CHR ''/'')])], [])
   \<and> (\<forall>ci s. set (match_piece ci (Star (CharClass True [(CHR ''/'', CHR ''/'')])) s)
               = {r. \<exists>p. s = p @ r \<and> CHR ''/'' \<notin> set p})"
proof -
  have b: "pcre_exec re_a_star ''./a/b'' = 0"
    using a_star_one_level[of "''b''"] by simp
  have h: "pcre_exec re_a_star ''./a/.hidden'' = 0"
    using a_star_one_level[of "''.hidden''"] by simp
  have c: "pcre_exec re_a_star ''./a/b/c'' = PCRE_ERROR_NOMATCH"
    using a_star_one_level[of "''b/c''"] by (simp add: pcre_exec_def split: if_splits)
  have ex: "\<exists>ign re. ign___init_pattern_into ''./a/*'' sl = Inr ign
        \<and> compare_string ign = CHR 0x5C # ''./a/[^/]*$'' \<and> \<not> has_wildwildcard ign
        \<and> compiled ign = Some re
        \<and> pcre_exec re ''./a/b'' = 0 \<and> pcre_exec re ''./a/.hidden'' = 0
        \<and> pcre_exec re ''./a/b/c'' = PCRE_ERROR_NOMATCH
        \<and> (\<forall>n. (pcre_exec re (''./a/'' @ n) = 0) = (CHR ''/'' \<notin> set n))"
    using b h c a_star_one_level by (simp add: init_a_star)
  have step: "\<forall>room c src. c \<noteq> CHR ''*'' \<longrightarrow>
         shell_step room False CHR ''*'' (c # src) = Inr (''[^/]*'', False, False, c # src)"
    by (simp add: shell_step_def PATH_SEPARATOR_def)
  have step0: "\<forall>room. shell_step room False CHR ''*'' [] = Inr (''[^/]*'', False, False, [])"
    by (simp add: shell_step_def PATH_SEPARATOR_def)
  have pp: "parse_pieces ''[^/]*'' = Some ([Star (CharClass True [(CHR ''/'', CHR ''/'')])], [])"
    by code_simp
  have ms: "\<forall>ci s. set (match_piece ci (Star (CharClass True [(CHR ''/'', CHR ''/'')])) s)
               = {r. \<exists>p. s = p @ r \<and> CHR ''/'' \<notin> set p}"
    using match_star_not_separator by simp
  show ?thesis by (intro conjI ex step step0 pp ms)
qed

theorem single_star_stays_in_one_level_witness:
  "CHR ''b'' \<noteq> CHR ''*''
   \<and> shell_step 40 False CHR ''*'' ''b/c'' = Inr (''[^/]*'', False, False, ''b/c'')"
  using single_star_stays_in_one_level[of blank_ignore] by simp

section \<open>The anchor\<close>

lemma tolower_slash: "(tolower c = CHR ''/'') = (c = CHR ''/'')"
proof
  assume "tolower c = CHR ''/''"
  then have "(of_char (tolower c) :: nat) = 47" by simp
  then have "(of_char c :: nat) = 47"
    by (auto simp: of_char_tolower isupper_def Let_def split: if_splits)
  then show "c = CHR ''/''" by (simp add: of_char_slash)
next
  assume "c = CHR ''/''"
  then show "tolower c = CHR ''/''" by (simp add: tolower_def isupper_def)
qed

lemma end_or_separator:
  "(match_items ci [Group [[Dollar], [One (Lit CHR ''/'')]]] s \<noteq> [])
   = (s = [] \<or> s = [CHR 0x0A] \<or> (\<exists>r. s = CHR ''/'' # r))"
proof (cases s)
  case Nil
  then show ?thesis by simp
next
  case (Cons c r)
  have "tolower CHR ''/'' = CHR ''/''" by (simp add: tolower_def isupper_def)
  then have "atom_ok ci (Lit CHR ''/'') c = (c = CHR ''/'')"
    using tolower_slash[of c] by auto
  with Cons show ?thesis by auto
qed

text \<open>
  The buffer of the translation is never too small. A bracket expression writes one
  character for each character it reads, every other round of the loop writes at most five
  characters for at least one character read, and the buffer has five bytes for each
  character of the rule text and sixteen more. So neither \<^verbatim>\<open>ENOSPC\<close> check fires, and
  every non-empty pattern is translated.
\<close>

lemma bracket_loop_total:
  "int (length src) + 5 \<le> room \<Longrightarrow>
   \<exists>out rest. bracket_loop room pos bs src = Inr (out, rest)
      \<and> length out + length rest = length src"
proof (induction src arbitrary: room pos bs)
  case Nil
  then show ?case by simp
next
  case (Cons c src)
  have r: "int (length src) + 5 \<le> room - 1" using Cons.prems by simp
  have nr: "\<not> room - 1 < 5" using Cons.prems by simp
  obtain d pos' bs' where t:
    "(if bs then (c, pos, False)
      else if pos = 0 \<and> (c = CHR ''!'' \<or> c = CHR ''^'') then (CHR ''^'', pos, bs)
      else (c, if c = CHR '']'' \<and> 0 < pos then - 1 else pos + 1, c = CHR 0x5C)) = (d, pos', bs')"
    using prod_cases3 by blast
  from Cons.IH[OF r, of pos' bs'] obtain out rest where
    o: "bracket_loop (room - 1) pos' bs' src = Inr (out, rest)"
       "length out + length rest = length src" by blast
  show ?case
  proof (cases "0 \<le> pos'")
    case True
    then have "bracket_loop room pos bs (c # src) = Inr (d # out, rest)"
      using t nr o by (simp add: Let_def)
    then show ?thesis using o by simp
  next
    case False
    then have "bracket_loop room pos bs (c # src) = Inr ([d], src)"
      using t nr by (simp add: Let_def)
    then show ?thesis by simp
  qed
qed

lemma shell_step_total:
  assumes "5 * int (length (c # src)) + 11 \<le> room"
  shows "\<exists>d w bs' rest. shell_step room bs c src = Inr (d, w, bs', rest)
      \<and> length rest \<le> length src
      \<and> int (length d) \<le> 5 * (int (length (c # src)) - int (length rest))"
proof (cases "\<not> bs \<and> c = CHR ''[''")
  case True
  have "int (length (c # src)) + 5 \<le> room" using assms by simp
  from bracket_loop_total[OF this, of "- 1" False] obtain out rest where
    o: "bracket_loop room (- 1) False (c # src) = Inr (out, rest)"
       "length out + length rest = length (c # src)" by blast
  have s: "shell_step room bs c src = Inr (out, False, False, rest)"
    using True o(1) by (simp add: shell_step_def ign___translate_bracketed_expr_def)
  have l: "length rest \<le> length src" using shell_step_rest[OF s] .
  have "int (length out) \<le> 5 * (int (length (c # src)) - int (length rest))"
    using o(2) l by simp
  with s l show ?thesis by blast
next
  case False
  have dw: "length (dropWhile (\<lambda>x. x = CHR ''*'') src) \<le> length src"
    by (rule length_dropWhile_le)
  let ?star = "case src of [] \<Rightarrow> False | n # _ \<Rightarrow> n = CHR ''*''"
  let ?plain = "isalnum c \<or> c = CHR ''/'' \<or> c = CHR ''-''"
  consider (esc) "bs"
    | (run) "\<not> bs" "c = CHR ''*''" "?star"
    | (one) "\<not> bs" "c = CHR ''*''" "\<not> ?star"
    | (any) "\<not> bs" "c = CHR ''?''"
    | (plain) "\<not> bs" "c \<noteq> CHR ''*''" "c \<noteq> CHR ''?''" "c \<noteq> CHR ''[''" "?plain"
    | (bsl) "\<not> bs" "c \<noteq> CHR ''*''" "c \<noteq> CHR ''?''" "c \<noteq> CHR ''[''" "\<not> ?plain"
        "c = CHR 0x5C"
    | (other) "\<not> bs" "c \<noteq> CHR ''*''" "c \<noteq> CHR ''?''" "c \<noteq> CHR ''[''" "\<not> ?plain"
        "c \<noteq> CHR 0x5C"
    using False by blast
  then show ?thesis
  proof cases
    case esc
    then have "shell_step room bs c src = Inr ([c], False, False, src)"
      by (simp add: shell_step_def)
    then show ?thesis by auto
  next
    case run
    then have "shell_step room bs c src
               = Inr (''.*'', True, False, dropWhile (\<lambda>x. x = CHR ''*'') src)"
      by (simp add: shell_step_def)
    then show ?thesis using dw by auto
  next
    case one
    then have "shell_step room bs c src
               = Inr ([CHR ''['', CHR ''^'', PATH_SEPARATOR, CHR '']'', CHR ''*''],
                      False, False, src)"
      by (simp add: shell_step_def)
    then show ?thesis by auto
  next
    case any
    then have "shell_step room bs c src = Inr (''.'', False, False, src)"
      by (simp add: shell_step_def)
    then show ?thesis by auto
  next
    case plain
    then have "shell_step room bs c src = Inr ([c], False, False, src)"
      by (simp add: shell_step_def)
    then show ?thesis by auto
  next
    case bsl
    then have "shell_step room bs c src = Inr ([c], False, True, src)"
      by (simp add: shell_step_def)
    then show ?thesis by auto
  next
    case other
    then have "shell_step room bs c src = Inr ([CHR 0x5C, c], False, False, src)"
      by (simp add: shell_step_def)
    then show ?thesis by auto
  qed
qed

lemma shell_loop_total:
  "5 * int (length s) + 11 \<le> room \<Longrightarrow> \<exists>out w. shell_loop room bs s = Inr (out, w)"
proof (induction s arbitrary: room bs rule: length_induct)
  case (1 s)
  show ?case
  proof (cases s)
    case Nil
    then show ?thesis by auto
  next
    case (Cons c src)
    from shell_step_total[of c src room bs] 1(2) Cons obtain d w bs' rest where
      st: "shell_step room bs c src = Inr (d, w, bs', rest)"
          "length rest \<le> length src"
          "int (length d) \<le> 5 * (int (length (c # src)) - int (length rest))" by blast
    have r: "5 * int (length rest) + 11 \<le> room - int (length d)"
      using st(3) 1(2) Cons by simp
    have "length rest < length s" using st(2) Cons by simp
    with 1(1) r obtain out w' where
      l: "shell_loop (room - int (length d)) bs' rest = Inr (out, w')" by blast
    have "\<not> room - int (length d) < 11" using r by simp
    then have "shell_loop room bs (c # src) = Inr (d @ out, w \<or> w')"
      using st(1) l by simp
    then show ?thesis using Cons by simp
  qed
qed

lemma translate_shell_total:
  assumes "p \<noteq> []" and "length p \<le> length pat"
  shows "\<exists>out w. translate_shell pat p = Inr (out, w)"
proof -
  have "5 * int (length p) + 11 \<le> int (length pat) * 5 + 16" using assms(2) by simp
  from shell_loop_total[OF this, of False] obtain out w where
    "shell_loop (int (length pat) * 5 + 16) False p = Inr (out, w)" by blast
  then show ?thesis using assms(1) by (simp add: translate_shell_def)
qed

lemma translate_shell_anchor:
  assumes "translate_shell pat p = Inr (out, wild)"
  shows "p \<noteq> [] \<and> (\<exists>body. shell_loop (int (length pat) * 5 + 16) False p = Inr (body, wild)
          \<and> out = (if last p = PATH_SEPARATOR then butlast body @ ''($|/)'' else body @ ''$''))"
  using assms
  by (auto simp: translate_shell_def anchor_def PATH_SEPARATOR_def split: if_splits sum.splits)

lemma a_exactly:
  "(pcre_exec re_a t = 0) = (t = ''./a'' \<or> t = ''./a'' @ [CHR 0x0A])"
  by (auto simp: pcre_exec_def re_a_def PCRE_ERROR_NOMATCH_def split: list.splits if_splits)

lemma a_slash_exactly:
  "(pcre_exec re_a_slash t = 0)
   = (t = ''./a'' \<or> t = ''./a'' @ [CHR 0x0A] \<or> (\<exists>s. t = ''./a/'' @ s))"
  by (auto simp: pcre_exec_def re_a_slash_def PCRE_ERROR_NOMATCH_def split: list.splits if_splits)

text \<open>
  The text of every translation ends in an anchor: what the loop wrote is followed by
  \<open>$\<close>, unless the last character of the pattern is the path separator; then the
  character written last is replaced and the text ends in \<open>($|/)\<close>, which as a group of
  its own accepts the end of the path or a path separator. The translation never fails:
  the pattern is not empty and is part of the rule text. The expression is compiled
  without \<^verbatim>\<open>PCRE_DOLLAR_ENDONLY\<close>, so \<open>$\<close> holds at the end of the path and also before
  a newline that ends it. For the two rules of the example: \<open>./a/\<close> matches \<open>./a\<close> itself
  and every path that goes on below it; \<open>./a\<close> matches no path below it, but \<open>./a\<close> and
  the same name followed by one newline.
\<close>

theorem anchor_at_the_end:
  "(\<forall>pat p out wild. translate_shell pat p = Inr (out, wild) \<longrightarrow>
      p \<noteq> [] \<and> (\<exists>body. shell_loop (int (length pat) * 5 + 16) False p = Inr (body, wild)
          \<and> out = (if last p = PATH_SEPARATOR then butlast body @ ''($|/)'' else body @ ''$'')))
   \<and> parse_items ''($|/)'' = Some [Group [[Dollar], [One (Lit CHR ''/'')]]]
   \<and> (\<forall>ci s. (match_items ci [Group [[Dollar], [One (Lit CHR ''/'')]]] s \<noteq> [])
         = (s = [] \<or> s = [CHR 0x0A] \<or> (\<exists>r. s = CHR ''/'' # r)))
   \<and> (\<exists>ign re. ign___init_pattern_into ''./a/'' sl = Inr ign
         \<and> compare_string ign = CHR 0x5C # ''./a($|/)'' \<and> compiled ign = Some re
         \<and> pcre_exec re ''./a'' = 0 \<and> (\<forall>s. pcre_exec re (''./a/'' @ s) = 0)
         \<and> (\<forall>t. (pcre_exec re t = 0)
                = (t = ''./a'' \<or> t = ''./a'' @ [CHR 0x0A] \<or> (\<exists>s. t = ''./a/'' @ s))))
   \<and> (\<exists>ign re. ign___init_pattern_into ''./a'' sl = Inr ign
         \<and> compare_string ign = CHR 0x5C # ''./a$'' \<and> compiled ign = Some re
         \<and> pcre_exec re ''./a'' = 0 \<and> (\<forall>s. pcre_exec re (''./a/'' @ s) = PCRE_ERROR_NOMATCH)
         \<and> (\<forall>t. (pcre_exec re t = 0) = (t = ''./a'' \<or> t = ''./a'' @ [CHR 0x0A])))
   \<and> (\<forall>pat p. p \<noteq> [] \<and> length p \<le> length pat \<longrightarrow>
         (\<exists>out wild. translate_shell pat p = Inr (out, wild)))"
proof -
  have a: "\<forall>pat p out wild. translate_shell pat p = Inr (out, wild) \<longrightarrow>
      p \<noteq> [] \<and> (\<exists>body. shell_loop (int (length pat) * 5 + 16) False p = Inr (body, wild)
          \<and> out = (if last p = PATH_SEPARATOR then butlast body @ ''($|/)'' else body @ ''$''))"
    using translate_shell_anchor by blast
  have b: "parse_items ''($|/)'' = Some [Group [[Dollar], [One (Lit CHR ''/'')]]]"
    by code_simp
  have c: "\<forall>ci s. (match_items ci [Group [[Dollar], [One (Lit CHR ''/'')]]] s \<noteq> [])
         = (s = [] \<or> s = [CHR 0x0A] \<or> (\<exists>r. s = CHR ''/'' # r))"
    using end_or_separator by blast
  have d: "\<exists>ign re. ign___init_pattern_into ''./a/'' sl = Inr ign
         \<and> compare_string ign = CHR 0x5C # ''./a($|/)'' \<and> compiled ign = Some re
         \<and> pcre_exec re ''./a'' = 0 \<and> (\<forall>s. pcre_exec re (''./a/'' @ s) = 0)
         \<and> (\<forall>t. (pcre_exec re t = 0)
                = (t = ''./a'' \<or> t = ''./a'' @ [CHR 0x0A] \<or> (\<exists>s. t = ''./a/'' @ s)))"
    using a_slash_self a_slash_below a_slash_exactly by (simp add: init_a_slash)
  have e: "\<exists>ign re. ign___init_pattern_into ''./a'' sl = Inr ign
         \<and> compare_string ign = CHR 0x5C # ''./a$'' \<and> compiled ign = Some re
         \<and> pcre_exec re ''./a'' = 0 \<and> (\<forall>s. pcre_exec re (''./a/'' @ s) = PCRE_ERROR_NOMATCH)
         \<and> (\<forall>t. (pcre_exec re t = 0) = (t = ''./a'' \<or> t = ''./a'' @ [CHR 0x0A]))"
    using a_self a_not_below a_exactly by (simp add: init_a)
  have f: "\<forall>pat p. p \<noteq> [] \<and> length p \<le> length pat \<longrightarrow>
         (\<exists>out wild. translate_shell pat p = Inr (out, wild))"
    using translate_shell_total by blast
  show ?thesis by (intro conjI a b c d e f)
qed

theorem anchor_at_the_end_witness:
  "translate_shell ''./tmp/'' ''./tmp/'' = Inr (CHR 0x5C # ''./tmp($|/)'', False)
   \<and> ''./tmp/'' \<noteq> []
   \<and> (\<exists>body. shell_loop (int (length ''./tmp/'') * 5 + 16) False ''./tmp/'' = Inr (body, False)
      \<and> CHR 0x5C # ''./tmp($|/)''
        = (if last ''./tmp/'' = PATH_SEPARATOR then butlast body @ ''($|/)'' else body @ ''$''))"
proof -
  have t: "translate_shell ''./tmp/'' ''./tmp/'' = Inr (CHR 0x5C # ''./tmp($|/)'', False)"
    by code_simp
  from anchor_at_the_end[of blank_ignore, THEN conjunct1, rule_format, OF t] t
  show ?thesis by (intro conjI) (erule conjunct1 conjunct2 | assumption)+
qed

text \<open>
  Claim C3. A rule without a path separator at its end is to match only the name it
  gives; the note on shell patterns in \<^verbatim>\<open>ignore.c\<close> says the same of \<open>./sys\<close>. The rule
  \<open>./a\<close> is translated into an expression that ends in \<open>$\<close>. An entry of the root
  directory whose name is \<open>a\<close> followed by a newline has the path \<open>./a\<close> followed by a
  newline, which is not the name of the rule, and the rule ignores it.
\<close>

theorem rule_matches_name_with_final_newline:
  "\<exists>ign. ign___init_pattern_into ''./a'' blank_ignore = Inr ign
     \<and> compare_string ign = CHR 0x5C # ''./a$''
     \<and> ops__build_path
           (Estat (''a'' @ [CHR 0x0A]) \<lparr>st_mode = S_IFREG, st_dev = MKDEV 8 1, st_ino = 9\<rparr>
              (Some (Estat ''.'' \<lparr>st_mode = S_IFDIR, st_dev = MKDEV 8 1, st_ino = 2\<rparr> None)))
         = ''./a'' @ [CHR 0x0A]
     \<and> ign__is_ignore [ign]
           (Estat (''a'' @ [CHR 0x0A]) \<lparr>st_mode = S_IFREG, st_dev = MKDEV 8 1, st_ino = 9\<rparr>
              (Some (Estat ''.'' \<lparr>st_mode = S_IFDIR, st_dev = MKDEV 8 1, st_ino = 2\<rparr> None)))
         = Inr 1"
proof -
  have m: "pcre_exec re_a (''./a'' @ [CHR 0x0A]) = 0"
    using a_exactly[of "''./a'' @ [CHR 0x0A]"] by simp
  show ?thesis
    using m
    by (simp add: init_a ign__is_ignore_def ops___filetype_def test_pattern_def
        PATH_SEPARATOR_def)
qed

text \<open>
  A pattern that ends in a backslash: the backslash is copied and the \<open>$\<close> that follows it
  is a literal dollar, so the expression has no anchor at its end.
\<close>

definition re_a_dollar :: pcre where
  "re_a_dollar = Pcre False
     [Piece (One (Lit CHR ''.'')), Piece (One (Lit CHR ''/'')), Piece (One (Lit CHR ''a'')),
      Piece (One (Lit CHR ''$''))]"

lemma translate_a_backslash:
  "translate_shell (''./a'' @ [CHR 0x5C]) (''./a'' @ [CHR 0x5C])
   = Inr (CHR 0x5C # ''./a'' @ [CHR 0x5C] @ ''$'', False)"
  by code_simp

lemma compile_a_backslash:
  "pcre_compile (CHR 0x5C # ''./a'' @ [CHR 0x5C] @ ''$'') False = Some re_a_dollar"
  by code_simp

lemma pattern_ending_in_backslash:
  "\<exists>ign. ign___init_pattern_into (''./a'' @ [CHR 0x5C]) blank_ignore = Inr ign
     \<and> compare_string ign = CHR 0x5C # ''./a'' @ [CHR 0x5C] @ ''$''
     \<and> compiled ign = Some re_a_dollar
     \<and> pcre_exec re_a_dollar ''./a$/b/c'' = 0
     \<and> pcre_exec re_a_dollar ''./a'' = PCRE_ERROR_NOMATCH"
proof -
  have m: "pcre_exec re_a_dollar ''./a$/b/c'' = 0"
    by (simp add: pcre_exec_def re_a_dollar_def)
  have n: "pcre_exec re_a_dollar ''./a'' = PCRE_ERROR_NOMATCH"
    by (simp add: pcre_exec_def re_a_dollar_def)
  have t: "translate_shell [CHR ''.'', CHR ''/'', CHR ''a'', CHR 0x5C]
             [CHR ''.'', CHR ''/'', CHR ''a'', CHR 0x5C]
           = Inr (CHR 0x5C # ''./a'' @ [CHR 0x5C] @ ''$'', False)"
    using translate_a_backslash by simp
  show ?thesis
    using m n compile_a_backslash by (simp add: init_shell_eval t)
qed

section \<open>Device rules with the comparators less and greater\<close>

text \<open>
  \<^verbatim>\<open>ign___init_pattern_into\<close> collects every \<open><\<close>, \<open>=\<close> and \<open>>\<close> that follows the
  prefix, so it accepts \<open>DEVICE:<>3\<close>, with both flags set. The \<^verbatim>\<open>switch\<close> of
  \<^verbatim>\<open>ign__is_ignore\<close> has no case for this value, and the round takes what the round
  before left in \<^verbatim>\<open>status\<close>.
\<close>

lemma init_device_less_greater_3:
  "ign___init_pattern_into ''DEVICE:<>3'' sl =
     Inr (sl\<lparr>pattern := ''DEVICE:<>3'', is_ignore := True, is_icase := False, pat_type := PT_DEVICE,
             compare_string := ''DEVICE:<>3'', compare := PAT_DEV__LESS + PAT_DEV__GREATER,
             major := 3, minor := 0, has_minor := False\<rparr>)"
  by (simp add: init_device_eval)

lemma test_device_less_greater:
  "pat_type ign = PT_DEVICE \<Longrightarrow> compare ign = PAT_DEV__LESS + PAT_DEV__GREATER \<Longrightarrow>
   test_pattern sts dir cp status ign = Inr (of_bool_int (status = 0))"
  by (simp add: test_pattern_def dev_consts Let_def)

lemma a_not_f: "pcre_exec re_a ''./f'' = PCRE_ERROR_NOMATCH"
  by (simp add: pcre_exec_def re_a_def)

text \<open>
  Claim C5. Every device rule is to be compared with the device of the entry, or of its
  parent directory when the entry is a directory. The rule \<open>DEVICE:<>3\<close> is accepted, with
  major number \<open>3\<close> and the comparators less and greater. For a regular file \<open>./f\<close> no
  device number decides: alone in the list the rule never matches, whatever the device of
  the file (\<^verbatim>\<open>ign___compare_dev\<close> tells the device \<open>4:0\<close> greater); behind the rule \<open>./a\<close>,
  which does not match \<open>./f\<close>, it matches every file, also the one on the device \<open>3:0\<close>.
\<close>

theorem device_rule_less_greater_compares_nothing:
  "\<exists>ign first.
      ign___init_pattern_into ''DEVICE:<>3'' blank_ignore = Inr ign
    \<and> pat_type ign = PT_DEVICE \<and> compare ign = PAT_DEV__LESS + PAT_DEV__GREATER
    \<and> major ign = 3 \<and> \<not> has_minor ign \<and> is_ignore ign
    \<and> ign___init_pattern_into ''./a'' blank_ignore = Inr first
    \<and> ign___compare_dev \<lparr>st_mode = S_IFREG, st_dev = MKDEV 4 0, st_ino = 9\<rparr> ign = 2
    \<and> ign___compare_dev \<lparr>st_mode = S_IFREG, st_dev = MKDEV 3 0, st_ino = 9\<rparr> ign = 0
    \<and> (\<forall>d. ign__is_ignore [ign]
           (Estat ''f'' \<lparr>st_mode = S_IFREG, st_dev = d, st_ino = 9\<rparr>
              (Some (Estat ''.'' \<lparr>st_mode = S_IFDIR, st_dev = MKDEV 8 1, st_ino = 2\<rparr> None)))
         = Inr 0)
    \<and> (\<forall>d. ign__is_ignore [first, ign]
           (Estat ''f'' \<lparr>st_mode = S_IFREG, st_dev = d, st_ino = 9\<rparr>
              (Some (Estat ''.'' \<lparr>st_mode = S_IFDIR, st_dev = MKDEV 8 1, st_ino = 2\<rparr> None)))
         = Inr 1)"
proof -
  let ?ign = "blank_ignore\<lparr>pattern := ''DEVICE:<>3'', is_ignore := True, is_icase := False,
             pat_type := PT_DEVICE,
             compare_string := ''DEVICE:<>3'', compare := PAT_DEV__LESS + PAT_DEV__GREATER,
             major := 3, minor := 0, has_minor := False\<rparr>"
  let ?first = "blank_ignore\<lparr>pattern := ''./a'', is_ignore := True, is_icase := False,
            pat_type := PT_SHELL, path_level := 1, has_wildwildcard := False,
            compare_string := CHR 0x5C # ''./a$'', compiled := Some re_a\<rparr>"
  let ?e = "\<lambda>d. Estat ''f'' \<lparr>st_mode = S_IFREG, st_dev = d, st_ino = 9\<rparr>
              (Some (Estat ''.'' \<lparr>st_mode = S_IFDIR, st_dev = MKDEV 8 1, st_ino = 2\<rparr> None))"
  have i: "ign___init_pattern_into ''DEVICE:<>3'' blank_ignore = Inr ?ign"
    by (rule init_device_less_greater_3)
  have f: "ign___init_pattern_into ''./a'' blank_ignore = Inr ?first"
    by (rule init_a)
  have p: "pat_type ?ign = PT_DEVICE \<and> compare ?ign = PAT_DEV__LESS + PAT_DEV__GREATER
           \<and> major ?ign = 3 \<and> \<not> has_minor ?ign \<and> is_ignore ?ign"
    by simp
  have c4: "ign___compare_dev \<lparr>st_mode = S_IFREG, st_dev = MKDEV 4 0, st_ino = 9\<rparr> ?ign = 2"
    by (simp add: ign___compare_dev_def)
  have c3: "ign___compare_dev \<lparr>st_mode = S_IFREG, st_dev = MKDEV 3 0, st_ino = 9\<rparr> ?ign = 0"
    by (simp add: ign___compare_dev_def)
  have t: "\<And>sts dir cp status. test_pattern sts dir cp status ?ign = Inr (of_bool_int (status = 0))"
    by (rule test_device_less_greater) simp_all
  have one: "\<forall>d. ign__is_ignore [?ign] (?e d) = Inr 0"
    by (simp add: ign__is_ignore_def ops___filetype_def t of_bool_int_def)
  have two: "\<forall>d. ign__is_ignore [?first, ?ign] (?e d) = Inr 1"
    by (simp add: ign__is_ignore_def ops___filetype_def PATH_SEPARATOR_def test_pattern_def
        a_not_f dev_consts of_bool_int_def PCRE_ERROR_NOMATCH_def Let_def)
  show ?thesis
    apply (rule exI[of _ ?ign])
    apply (rule exI[of _ ?first])
    using p by (intro conjI i f c4 c3 one two) simp_all
qed

section \<open>The order of the rules\<close>

text \<open>A rule that the loop of \<^verbatim>\<open>ign__is_ignore\<close> can test: a regular expression with
  its compiled matcher, an inode rule, or a device rule with one of the five comparators
  that the \<^verbatim>\<open>switch\<close> knows.\<close>

definition usable :: "ignore_t \<Rightarrow> bool" where
  "usable ign =
     (case pat_type ign of
        PT_DEVICE \<Rightarrow>
          compare ign \<in> set [PAT_DEV__LESS, PAT_DEV__LESS + PAT_DEV__EQUAL, PAT_DEV__EQUAL,
                             PAT_DEV__EQUAL + PAT_DEV__GREATER, PAT_DEV__GREATER]
      | PT_INODE \<Rightarrow> True
      | _ \<Rightarrow> compiled ign \<noteq> None)"

lemma usable_test_pattern:
  assumes "usable ign"
  shows "test_pattern sts dir cp status ign = test_pattern sts dir cp 0 ign"
    and "\<exists>v. test_pattern sts dir cp 0 ign = Inr v"
  using assms
  by (auto simp: usable_def test_pattern_def Let_def dev_consts split: pattern_type.splits)

lemma first_usable_match:
  assumes "\<forall>ign\<in>set ignore_list. usable ign"
  shows "test_patterns sts dir cp status ignore_list
         = Inr (case find (\<lambda>ign. test_pattern sts dir cp 0 ign = Inr 0) ignore_list of
                  None \<Rightarrow> 0
                | Some ign \<Rightarrow> if is_ignore ign then 1 else - 1)"
  using assms
proof (induction ignore_list arbitrary: status)
  case Nil
  then show ?case by simp
next
  case (Cons ign rest)
  then have u: "usable ign" by simp
  obtain v where v: "test_pattern sts dir cp 0 ign = Inr v"
    using usable_test_pattern(2)[OF u] by blast
  have s: "test_pattern sts dir cp status ign = Inr v"
    using usable_test_pattern(1)[OF u, of sts dir cp status] v by simp
  show ?case
  proof (cases "v = 0")
    case True
    with v s show ?thesis by simp
  next
    case False
    have "test_patterns sts dir cp v rest
         = Inr (case find (\<lambda>ign. test_pattern sts dir cp 0 ign = Inr 0) rest of
                  None \<Rightarrow> 0
                | Some ign \<Rightarrow> if is_ignore ign then 1 else - 1)"
      using Cons.IH[of v] Cons.prems by simp
    with False v s show ?thesis by simp
  qed
qed

lemma new_ignore_then_take:
  "ign__new_pattern (Some [''./**'', ''t./keep.txt'']) True PATTERN_POSITION_END []
   = Inr [blank_ignore\<lparr>pattern := ''./**'', is_ignore := True, is_icase := False, pat_type := PT_SHELL,
            path_level := 1, has_wildwildcard := True,
            compare_string := CHR 0x5C # ''./.*$'', compiled := Some re_starstar, is_user_pat := True\<rparr>,
          blank_ignore\<lparr>pattern := ''t./keep.txt'', is_ignore := False, is_icase := False, pat_type := PT_SHELL,
            path_level := 1, has_wildwildcard := False,
            compare_string := [CHR 0x5C, CHR ''.'', CHR ''/'', CHR ''k'', CHR ''e'', CHR ''e'', CHR ''p'', CHR 0x5C, CHR ''.'', CHR ''t'', CHR ''x'', CHR ''t'', CHR ''$''],
            compiled := Some re_keep, is_user_pat := True\<rparr>]"
  by (simp add: ign__new_pattern_def PATTERN_POSITION_END_def slot_def init_starstar init_keep)

lemma new_take_then_ignore:
  "ign__new_pattern (Some [''t./keep.txt'', ''./**'']) True PATTERN_POSITION_END []
   = Inr [blank_ignore\<lparr>pattern := ''t./keep.txt'', is_ignore := False, is_icase := False, pat_type := PT_SHELL,
            path_level := 1, has_wildwildcard := False,
            compare_string := [CHR 0x5C, CHR ''.'', CHR ''/'', CHR ''k'', CHR ''e'', CHR ''e'', CHR ''p'', CHR 0x5C, CHR ''.'', CHR ''t'', CHR ''x'', CHR ''t'', CHR ''$''],
            compiled := Some re_keep, is_user_pat := True\<rparr>,
          blank_ignore\<lparr>pattern := ''./**'', is_ignore := True, is_icase := False, pat_type := PT_SHELL,
            path_level := 1, has_wildwildcard := True,
            compare_string := CHR 0x5C # ''./.*$'', compiled := Some re_starstar, is_user_pat := True\<rparr>]"
  by (simp add: ign__new_pattern_def PATTERN_POSITION_END_def slot_def init_starstar init_keep)

lemma starstar_keep: "pcre_exec re_starstar ''./keep.txt'' = 0"
proof -
  have "match_items False (items re_starstar) ''./keep.txt''
        = match_items False [Piece (Star AnyChar), Piece Dollar] ''keep.txt''"
    by (simp add: re_starstar_def)
  then have "match_items False (items re_starstar) ''./keep.txt'' \<noteq> []"
    by (simp only: any_to_the_end not_False_eq_True)
  moreover have "caseless re_starstar = False"
    by (simp add: re_starstar_def)
  ultimately show ?thesis
    by (simp add: pcre_exec_def)
qed

lemma keep_keep: "pcre_exec re_keep ''./keep.txt'' = 0"
  by (simp add: pcre_exec_def re_keep_def)

lemma classify_ignore_then_take:
  assumes "ops___filetype s \<noteq> FT_IGNORE"
    and "ign__new_pattern (Some [''./**'', ''t./keep.txt'']) True PATTERN_POSITION_END [] = Inr ignore_list"
  shows "ign__is_ignore ignore_list (Estat ''keep.txt'' s (Some (Estat n s' None))) = Inr 1"
  using assms unfolding new_ignore_then_take
  by (auto simp: ign__is_ignore_def test_pattern_def starstar_keep PATH_SEPARATOR_def)

lemma classify_take_then_ignore:
  assumes "ops___filetype s \<noteq> FT_IGNORE"
    and "ign__new_pattern (Some [''t./keep.txt'', ''./**'']) True PATTERN_POSITION_END [] = Inr ignore_list"
  shows "ign__is_ignore ignore_list (Estat ''keep.txt'' s (Some (Estat n s' None))) = Inr (- 1)"
  using assms unfolding new_take_then_ignore
  by (auto simp: ign__is_ignore_def test_pattern_def keep_keep PATH_SEPARATOR_def)

text \<open>
  Claim C1, as amended. For an entry that has a parent and a file type that can be
  versioned, and a rule list whose rules can be tested (a compiled matcher, or one of the
  five comparators of a device rule), the rules are tested in the order of the list and
  the first rule that matches decides: \<open>+1\<close> (ignored) for an ignore rule, \<open>-1\<close> (taken)
  for a take rule, and \<open>0\<close> when no rule matches. For the list of the ignore rule \<open>./**\<close>
  followed by the take rule \<open>./keep.txt\<close> the path \<open>./keep.txt\<close> is ignored; for the list
  in the other order it is taken.
\<close>

theorem first_match_decides:
  "(\<forall>ignore_list sts dir.
      parent sts = Some dir \<and> ops___filetype (st sts) \<noteq> FT_IGNORE
      \<and> (\<forall>ign\<in>set ignore_list. usable ign) \<longrightarrow>
      ign__is_ignore ignore_list sts
      = Inr (case find (\<lambda>ign. test_pattern sts dir (ops__build_path sts) 0 ign = Inr 0) ignore_list of
               None \<Rightarrow> 0
             | Some ign \<Rightarrow> if is_ignore ign then 1 else - 1))
   \<and> (\<exists>ignore_list.
         ign__new_pattern (Some [''./**'', ''t./keep.txt'']) True PATTERN_POSITION_END [] = Inr ignore_list
         \<and> (\<forall>s n s'. ops___filetype s \<noteq> FT_IGNORE \<longrightarrow>
               ign__is_ignore ignore_list (Estat ''keep.txt'' s (Some (Estat n s' None))) = Inr 1))
   \<and> (\<exists>ignore_list.
         ign__new_pattern (Some [''t./keep.txt'', ''./**'']) True PATTERN_POSITION_END [] = Inr ignore_list
         \<and> (\<forall>s n s'. ops___filetype s \<noteq> FT_IGNORE \<longrightarrow>
               ign__is_ignore ignore_list (Estat ''keep.txt'' s (Some (Estat n s' None))) = Inr (- 1)))"
proof -
  have a: "\<forall>ignore_list sts dir.
      parent sts = Some dir \<and> ops___filetype (st sts) \<noteq> FT_IGNORE
      \<and> (\<forall>ign\<in>set ignore_list. usable ign) \<longrightarrow>
      ign__is_ignore ignore_list sts
      = Inr (case find (\<lambda>ign. test_pattern sts dir (ops__build_path sts) 0 ign = Inr 0) ignore_list of
               None \<Rightarrow> 0
             | Some ign \<Rightarrow> if is_ignore ign then 1 else - 1)"
    using first_usable_match by (simp add: ign__is_ignore_def)
  have b: "\<exists>ignore_list.
         ign__new_pattern (Some [''./**'', ''t./keep.txt'']) True PATTERN_POSITION_END [] = Inr ignore_list
         \<and> (\<forall>s n s'. ops___filetype s \<noteq> FT_IGNORE \<longrightarrow>
               ign__is_ignore ignore_list (Estat ''keep.txt'' s (Some (Estat n s' None))) = Inr 1)"
    using classify_ignore_then_take new_ignore_then_take by blast
  have c: "\<exists>ignore_list.
         ign__new_pattern (Some [''t./keep.txt'', ''./**'']) True PATTERN_POSITION_END [] = Inr ignore_list
         \<and> (\<forall>s n s'. ops___filetype s \<noteq> FT_IGNORE \<longrightarrow>
               ign__is_ignore ignore_list (Estat ''keep.txt'' s (Some (Estat n s' None))) = Inr (- 1))"
    using classify_take_then_ignore new_take_then_ignore by blast
  show ?thesis by (intro conjI a b c)
qed

text \<open>The first part at the list of the take rule followed by the ignore rule: both
  rules can be tested, the entry has a parent, and the first rule that matches
  \<open>./keep.txt\<close> is the take rule.\<close>

theorem first_match_decides_witness:
  "\<exists>ignore_list.
     ign__new_pattern (Some [''t./keep.txt'', ''./**'']) True PATTERN_POSITION_END [] = Inr ignore_list
     \<and> list_all usable ignore_list
     \<and> ign__is_ignore ignore_list
          (Estat ''keep.txt'' \<lparr>st_mode = S_IFREG, st_dev = MKDEV 8 1, st_ino = 7\<rparr>
             (Some (Estat ''.'' \<lparr>st_mode = S_IFDIR, st_dev = MKDEV 8 1, st_ino = 2\<rparr> None)))
        = Inr (- 1)"
proof -
  let ?root = "Estat ''.'' \<lparr>st_mode = S_IFDIR, st_dev = MKDEV 8 1, st_ino = 2\<rparr> None"
  let ?keep = "Estat ''keep.txt'' \<lparr>st_mode = S_IFREG, st_dev = MKDEV 8 1, st_ino = 7\<rparr> (Some ?root)"
  obtain l where l: "ign__new_pattern (Some [''t./keep.txt'', ''./**'']) True PATTERN_POSITION_END [] = Inr l"
    using new_take_then_ignore by blast
  have u: "\<forall>ign\<in>set l. usable ign"
    using l unfolding new_take_then_ignore by (auto simp: usable_def)
  have p: "parent ?keep = Some ?root" by simp
  have f: "ops___filetype (st ?keep) \<noteq> FT_IGNORE" by (simp add: ops___filetype_def)
  have "ign__is_ignore l ?keep
      = Inr (case find (\<lambda>ign. test_pattern ?keep ?root (ops__build_path ?keep) 0 ign = Inr 0) l of
               None \<Rightarrow> 0
             | Some ign \<Rightarrow> if is_ignore ign then 1 else - 1)"
    using first_match_decides[THEN conjunct1, rule_format, of ?keep ?root l] p f u by blast
  moreover have "find (\<lambda>ign. test_pattern ?keep ?root (ops__build_path ?keep) 0 ign = Inr 0) l = Some (hd l)"
    using l unfolding new_take_then_ignore
    by (auto simp: test_pattern_def keep_keep PATH_SEPARATOR_def)
  moreover have "\<not> is_ignore (hd l)"
    using l unfolding new_take_then_ignore by auto
  ultimately have "ign__is_ignore l ?keep = Inr (- 1)" by simp
  with l u show ?thesis by (auto simp: list_all_iff)
qed

text \<open>Claim C1 as it is written says that the ignore rule \<open>./**\<close> followed by the take
  rule \<open>./keep.txt\<close> classifies \<open>./keep.txt\<close> as taken. The first rule matches the path,
  so the entry is ignored.\<close>

theorem ignore_before_take_counterexample:
  "\<exists>ignore_list.
     ign__new_pattern (Some [''./**'', ''t./keep.txt'']) True PATTERN_POSITION_END [] = Inr ignore_list
     \<and> ign__is_ignore ignore_list
          (Estat ''keep.txt'' \<lparr>st_mode = S_IFREG, st_dev = MKDEV 8 1, st_ino = 7\<rparr>
             (Some (Estat ''.'' \<lparr>st_mode = S_IFDIR, st_dev = MKDEV 8 1, st_ino = 2\<rparr> None)))
        = Inr 1
     \<and> ign__is_ignore ignore_list
          (Estat ''keep.txt'' \<lparr>st_mode = S_IFREG, st_dev = MKDEV 8 1, st_ino = 7\<rparr>
             (Some (Estat ''.'' \<lparr>st_mode = S_IFDIR, st_dev = MKDEV 8 1, st_ino = 2\<rparr> None)))
        \<noteq> Inr (- 1)"
proof -
  obtain l where l: "ign__new_pattern (Some [''./**'', ''t./keep.txt'']) True PATTERN_POSITION_END [] = Inr l"
    using new_ignore_then_take by blast
  have f: "ops___filetype \<lparr>st_mode = S_IFREG, st_dev = MKDEV 8 1, st_ino = 7\<rparr> \<noteq> FT_IGNORE"
    by (simp add: ops___filetype_def)
  from classify_ignore_then_take[OF f l] l show ?thesis by auto
qed

section \<open>The header of the list file\<close>

lemma of_char_digit: "(k::nat) < 10 \<Longrightarrow> (of_char (char_of (48 + k) :: char) :: nat) = 48 + k"
  by (simp add: of_char_of)

lemma isdigit_digit: "(k::nat) < 10 \<Longrightarrow> isdigit (char_of (48 + k))"
  by (simp add: isdigit_def of_char_digit Let_def)

lemma digit_value_digit: "(k::nat) < 10 \<Longrightarrow> digit_value (char_of (48 + k)) = k"
  by (simp add: digit_value_def isdigit_digit of_char_digit)

lemma decimal_digits: "c \<in> set (decimal n) \<Longrightarrow> isdigit c"
proof (induction n arbitrary: c rule: decimal.induct)
  case (1 n)
  show ?case
  proof (cases "n < 10")
    case True
    with 1(2) show ?thesis by (simp add: decimal.simps[of n] isdigit_digit)
  next
    case False
    with 1 show ?thesis by (auto simp: decimal.simps[of n] isdigit_digit)
  qed
qed

lemma decimal_not_empty: "decimal n \<noteq> []"
  by (simp add: decimal.simps[of n])

lemma digits_value_append:
  "digits_value base acc (xs @ [c]) = digits_value base acc xs * base + digit_value c"
  by (induction xs arbitrary: acc) auto

lemma digits_value_decimal: "digits_value 10 0 (decimal n) = n"
proof (induction n rule: decimal.induct)
  case (1 n)
  show ?case
  proof (cases "n < 10")
    case True
    then show ?thesis by (simp add: decimal.simps[of n] digit_value_digit)
  next
    case False
    then have "digits_value 10 0 (decimal (n div 10)) = n div 10" using 1 by simp
    with False show ?thesis
      by (simp add: decimal.simps[of n] digits_value_append digit_value_digit)
  qed
qed

lemma isdigit_plain: "isdigit c \<Longrightarrow> \<not> isspace c \<and> c \<noteq> NUL \<and> c \<noteq> CHR 0x0A \<and> c \<noteq> CHR ''-'' \<and> c \<noteq> CHR ''+''"
  by (auto simp: isdigit_def isspace_def NUL_def Let_def)

lemma takeWhile_prefix:
  "(\<forall>x\<in>set xs. P x) \<Longrightarrow> \<not> P y \<Longrightarrow> takeWhile P (xs @ y # ys) = xs"
  by (induction xs) auto

lemma dropWhile_prefix:
  "(\<forall>x\<in>set xs. P x) \<Longrightarrow> \<not> P y \<Longrightarrow> dropWhile P (xs @ y # ys) = y # ys"
  by (induction xs) auto

lemma to_int_small: "n < 2 ^ 31 \<Longrightarrow> to_int n = int n"
  by (simp add: to_int_def Let_def)

lemma scan_int_decimal:
  assumes "n < 2 ^ 31" and "\<forall>c\<in>set rest. \<not> isdigit c \<or> True"
  shows "scan_int (decimal n @ CHR 0x0A # rest) = Some (int n)"
proof -
  obtain d ds where d: "decimal n = d # ds"
    using decimal_not_empty[of n] by (cases "decimal n") auto
  have dig: "\<forall>c\<in>set (decimal n). isdigit c" using decimal_digits by blast
  then have dd: "isdigit d" using d by simp
  have sp: "dropWhile isspace (decimal n @ CHR 0x0A # rest) = decimal n @ CHR 0x0A # rest"
    using dd d isdigit_plain[of d] by simp
  have tw: "takeWhile isdigit (decimal n @ CHR 0x0A # rest) = decimal n"
    using takeWhile_prefix[of "decimal n" isdigit "CHR 0x0A" rest] dig by (simp add: isdigit_def)
  have sign: "d \<noteq> CHR ''-''" "d \<noteq> CHR ''+''" using isdigit_plain[OF dd] by auto
  show ?thesis
    unfolding scan_int_def sp
    using sign tw d decimal_not_empty[of n] digits_value_decimal[of n] to_int_small[OF assms(1)]
    by (simp add: Let_def)
qed

text \<open>How \<^verbatim>\<open>ign__load_list\<close> reads a file that starts with a decimal count and a
  newline.\<close>

lemma load_list_header:
  assumes "n < 2 ^ 31"
  shows "ign__load_list (Some (decimal n @ CHR 0x0A # body)) ignore_list
         = (case load_patterns n body ignore_list of
              Inl e \<Rightarrow> (Some e, [])
            | Inr ignore_list' \<Rightarrow> (None, ignore_list'))"
proof -
  let ?memory = "decimal n @ CHR 0x0A # body"
  have dig: "\<forall>c\<in>set (decimal n). isdigit c" using decimal_digits by blast
  have nonul: "\<forall>c\<in>set (decimal n). c \<noteq> NUL" using dig isdigit_plain by blast
  have nonl: "\<forall>c\<in>set (decimal n). c \<noteq> CHR 0x0A" using dig isdigit_plain by blast
  have cstr: "takeWhile (\<lambda>c. c \<noteq> NUL) ?memory
              = decimal n @ CHR 0x0A # takeWhile (\<lambda>c. c \<noteq> NUL) body"
    using nonul by (simp add: takeWhile_append2 NUL_def)
  have nl: "takeWhile (\<lambda>c. c \<noteq> CHR 0x0A) ?memory = decimal n"
    using takeWhile_prefix[of "decimal n" "\<lambda>c. c \<noteq> CHR 0x0A" "CHR 0x0A" body] nonl by simp
  have sc: "scan_int (decimal n @ CHR 0x0A # takeWhile (\<lambda>c. c \<noteq> NUL) body) = Some (int n)"
    using scan_int_decimal[OF assms] by simp
  show ?thesis
    unfolding ign__load_list_def
    by (simp add: cstr sc nl ign__new_pattern_def)
qed


section \<open>The patterns of the list file\<close>

text \<open>The text that \<^verbatim>\<open>ign__save_ignorelist\<close> writes for rule texts, behind the
  header.\<close>

definition saved_patterns :: "string list \<Rightarrow> string" where
  "saved_patterns ps = concat (map (\<lambda>p. p @ [NUL] @ [CHR 0x0A]) ps)"

lemma skip_space_before:
  "list_all isspace w \<Longrightarrow> p \<noteq> [] \<Longrightarrow> skip_space (w @ p) = skip_space p"
  by (induction w) auto

lemma init_pattern_after_space:
  "list_all isspace w \<Longrightarrow> p \<noteq> [] \<Longrightarrow>
   ign___init_pattern_into (w @ p) sl = ign___init_pattern_into p sl"
  by (simp add: ign___init_pattern_into_def skip_space_before)

lemma init_empty: "ign___init_pattern_into [] sl = Inl EINVAL"
  by (simp add: ign___init_pattern_into_def init_regex_def)

lemma init_only_space: "list_all isspace w \<Longrightarrow> w \<noteq> [] \<Longrightarrow> skip_space w = Inl EINVAL"
  by (induction w) auto

lemma append_pattern:
  "ign__new_pattern (Some [p]) u PATTERN_POSITION_END ignore_list
   = (case ign___init_pattern_into p blank_ignore of
        Inl e \<Rightarrow> Inl e
      | Inr ign \<Rightarrow> Inr (ignore_list @ [ign\<lparr>is_user_pat := u\<rparr>]))"
  by (simp add: ign__new_pattern_def slot_def Let_def split: sum.splits)

lemma c_string_at:
  assumes "NUL \<notin> set w" and "NUL \<notin> set p"
  shows "takeWhile (\<lambda>c. c \<noteq> NUL) (w @ p @ NUL # rest) = w @ p"
proof -
  have "\<forall>x\<in>set (w @ p). x \<noteq> NUL" using assms by auto
  then have "takeWhile (\<lambda>c. c \<noteq> NUL) ((w @ p) @ NUL # rest) = w @ p"
    by (rule takeWhile_prefix) simp
  then show ?thesis by simp
qed


text \<open>
  The loop over the patterns of a file as \<^verbatim>\<open>ign__save_ignorelist\<close> writes it. Behind
  the first pattern the read position stands on the newline that follows the terminator,
  so every later pattern is read with that newline in front.
\<close>

lemma load_saved_patterns:
  assumes "list_all isspace w" and "NUL \<notin> set w" and "ps \<noteq> [] \<or> w = []"
    and "\<forall>p\<in>set ps. NUL \<notin> set p \<and> p \<noteq> []
           \<and> (\<exists>ign. ign___init_pattern_into p blank_ignore = Inr ign \<and> pattern ign = p)"
  shows "\<exists>new. load_patterns (length ps) (w @ saved_patterns ps) ignore_list = Inr (ignore_list @ new)
           \<and> map pattern new = ps \<and> list_all is_user_pat new"
  using assms
proof (induction ps arbitrary: w ignore_list)
  case Nil
  then show ?case by simp
next
  case (Cons p ps)
  let ?rest = "CHR 0x0A # saved_patterns ps"
  have cp: "w @ saved_patterns (p # ps) = w @ p @ NUL # ?rest"
    by (simp add: saved_patterns_def)
  from Cons.prems(4) obtain ign where
    p: "NUL \<notin> set p" "p \<noteq> []" "ign___init_pattern_into p blank_ignore = Inr ign" "pattern ign = p"
    by auto
  have cs: "takeWhile (\<lambda>c. c \<noteq> NUL) (w @ p @ NUL # ?rest) = w @ p"
    using c_string_at[OF Cons.prems(2) p(1)] .
  have init: "ign___init_pattern_into (w @ p) blank_ignore = Inr ign"
    using init_pattern_after_space[OF Cons.prems(1) p(2)] p(3) by simp
  have new: "ign__new_pattern (Some [w @ p]) True PATTERN_POSITION_END ignore_list
             = Inr (ignore_list @ [ign\<lparr>is_user_pat := True\<rparr>])"
    by (simp add: append_pattern init)
  have dr: "drop (Suc (length w + length p)) (w @ p @ NUL # ?rest) = ?rest"
    by simp
  have nl: "list_all isspace [CHR 0x0A]" "NUL \<notin> set [CHR 0x0A]"
    by (simp_all add: isspace_def NUL_def)
  obtain new' where
    rec: "load_patterns (length ps) ([CHR 0x0A] @ saved_patterns ps) (ignore_list @ [ign\<lparr>is_user_pat := True\<rparr>])
          = Inr ((ignore_list @ [ign\<lparr>is_user_pat := True\<rparr>]) @ new')"
      and new': "map pattern new' = ps" "list_all is_user_pat new'"
    using Cons.IH[OF nl, of "ignore_list @ [ign\<lparr>is_user_pat := True\<rparr>]"] Cons.prems(4)
    by (cases "ps = []") auto
  have a: "load_patterns (length (p # ps)) (w @ saved_patterns (p # ps)) ignore_list
        = Inr (ignore_list @ (ign\<lparr>is_user_pat := True\<rparr> # new'))"
    unfolding cp using rec
    by (simp add: cs new dr del: drop_append takeWhile.simps)
  have b: "map pattern (ign\<lparr>is_user_pat := True\<rparr> # new') = p # ps"
    using new'(1) p(4) by simp
  have c: "list_all is_user_pat (ign\<lparr>is_user_pat := True\<rparr> # new')"
    using new'(2) by simp
  show ?case
    by (rule exI[of _ "ign\<lparr>is_user_pat := True\<rparr> # new'"]) (intro conjI a b c)
qed


lemma load_refused_pattern:
  assumes "list_all isspace w" and "NUL \<notin> set w"
    and "\<forall>p\<in>set ps. NUL \<notin> set p"
    and "\<exists>p\<in>set ps. \<forall>sl. \<exists>e. ign___init_pattern_into p sl = Inl e"
  shows "\<exists>e. load_patterns (length ps) (w @ saved_patterns ps) ignore_list = Inl e"
  using assms
proof (induction ps arbitrary: w ignore_list)
  case Nil
  then show ?case by simp
next
  case (Cons p ps)
  let ?rest = "CHR 0x0A # saved_patterns ps"
  have cp: "w @ saved_patterns (p # ps) = w @ p @ NUL # ?rest"
    by (simp add: saved_patterns_def)
  have nul: "NUL \<notin> set p" using Cons.prems(3) by simp
  have cs: "takeWhile (\<lambda>c. c \<noteq> NUL) (w @ p @ NUL # ?rest) = w @ p"
    using c_string_at[OF Cons.prems(2) nul] .
  have dr: "drop (Suc (length w + length p)) (w @ p @ NUL # ?rest) = ?rest"
    by simp
  show ?case
  proof (cases "ign___init_pattern_into (w @ p) blank_ignore")
    case (Inl e)
    then have "load_patterns (length (p # ps)) (w @ saved_patterns (p # ps)) ignore_list = Inl e"
      unfolding cp by (simp add: cs append_pattern del: takeWhile.simps)
    then show ?thesis by blast
  next
    case (Inr ign)
    have ne: "p \<noteq> []"
    proof
      assume e: "p = []"
      show False
      proof (cases "w = []")
        case True
        with e Inr show False by (simp add: init_empty)
      next
        case False
        with e Inr init_only_space[OF Cons.prems(1) False] show False
          by (simp add: ign___init_pattern_into_def)
      qed
    qed
    have "ign___init_pattern_into p blank_ignore = Inr ign"
      using init_pattern_after_space[OF Cons.prems(1) ne, of blank_ignore] Inr by simp
    then have "\<not> (\<forall>sl. \<exists>e. ign___init_pattern_into p sl = Inl e)"
      by (metis Inl_Inr_False)
    then have later: "\<exists>q\<in>set ps. \<forall>sl. \<exists>e. ign___init_pattern_into q sl = Inl e"
      using Cons.prems(4) by (simp only: set_simps bex_simps) blast
    have nl: "list_all isspace [CHR 0x0A]" "NUL \<notin> set [CHR 0x0A]"
      by (simp_all add: isspace_def NUL_def)
    have later_nul: "\<forall>q\<in>set ps. NUL \<notin> set q" using Cons.prems(3) by simp
    obtain e where
      rec: "load_patterns (length ps) ([CHR 0x0A] @ saved_patterns ps) (ignore_list @ [ign\<lparr>is_user_pat := True\<rparr>])
            = Inl e"
      using Cons.IH[OF nl later_nul later, of "ignore_list @ [ign\<lparr>is_user_pat := True\<rparr>]"] by blast
    have "load_patterns (length (p # ps)) (w @ saved_patterns (p # ps)) ignore_list = Inl e"
      unfolding cp using rec
      by (simp add: cs append_pattern Inr dr del: drop_append takeWhile.simps)
    then show ?thesis by blast
  qed
qed

lemma load_error_empties:
  "ign__load_list file ignore_list = (Some e, ignore_list') \<Longrightarrow> ignore_list' = []"
  by (auto simp: ign__load_list_def split: option.splits if_splits sum.splits)

text \<open>A rule whose text can be written and read again: the text holds no terminator,
  and \<^verbatim>\<open>ign___init_pattern_into\<close> accepts it and keeps it as the text of the rule.\<close>

definition loadable :: "ignore_t \<Rightarrow> bool" where
  "loadable ign =
     (NUL \<notin> set (pattern ign)
      \<and> (case ign___init_pattern_into (pattern ign) blank_ignore of
           Inl e \<Rightarrow> False
         | Inr ign' \<Rightarrow> pattern ign' = pattern ign))"

lemma modifiers_other_slot:
  "modifiers i s = Inr (i', s') \<Longrightarrow> is_ignore j = is_ignore i \<Longrightarrow> is_icase j = is_icase i \<Longrightarrow>
   modifiers j s = Inr (j\<lparr>is_ignore := is_ignore i', is_icase := is_icase i'\<rparr>, s')
   \<and> pattern i' = pattern i"
proof (induction s arbitrary: i j)
  case Nil
  then show ?case by auto
next
  case (Cons c s)
  consider (t) "c = CHR ''t''" | (i) "c = CHR ''i''" | (other) "c \<noteq> CHR ''t''" "c \<noteq> CHR ''i''"
    by blast
  then show ?case
  proof cases
    case t
    with Cons.prems have s: "s \<noteq> []" and m: "modifiers (i\<lparr>is_ignore := False\<rparr>) s = Inr (i', s')"
      by (auto split: if_splits)
    from Cons.IH[OF m, of "j\<lparr>is_ignore := False\<rparr>"] Cons.prems(3) t s show ?thesis by simp
  next
    case i
    with Cons.prems have s: "s \<noteq> []" and m: "modifiers (i\<lparr>is_icase := True\<rparr>) s = Inr (i', s')"
      by (auto split: if_splits)
    from Cons.IH[OF m, of "j\<lparr>is_icase := True\<rparr>"] Cons.prems(2) i s show ?thesis by simp
  next
    case other
    with Cons.prems show ?thesis by auto
  qed
qed

lemma init_device_other_slot:
  "init_device i pat = Inr r \<Longrightarrow> \<exists>r'. init_device j pat = Inr r' \<and> pattern r' = pattern j \<and> pattern r = pattern i"
  by (auto simp: init_device_def Let_def split: prod.splits option.splits list.splits if_splits)

lemma init_inode_other_slot:
  "init_inode i pat = Inr r \<Longrightarrow> \<exists>r'. init_inode j pat = Inr r' \<and> pattern r' = pattern j \<and> pattern r = pattern i"
  by (auto simp: init_inode_def Let_def split: prod.splits option.splits list.splits if_splits)

lemma init_regex_other_slot:
  "init_regex i pat = Inr r \<Longrightarrow> is_icase j = is_icase i \<Longrightarrow> pattern j = pattern i \<Longrightarrow>
   \<exists>r'. init_regex j pat = Inr r' \<and> pattern r' = pattern j \<and> pattern r = pattern i"
  by (auto simp: init_regex_def ign__compile_pattern_def
      split: prod.splits option.splits sum.splits if_splits pattern_type.splits)

lemma skip_space_result:
  "skip_space s = Inr p \<Longrightarrow> skip_space p = Inr p \<and> set p \<subseteq> set s"
  by (induction s) (auto split: if_splits)

text \<open>Every rule that \<^verbatim>\<open>ign___init_pattern_into\<close> builds from a C string can be written and
  read again.\<close>

lemma init_pattern_loadable:
  assumes "ign___init_pattern_into text sl = Inr ign" and "NUL \<notin> set text"
  shows "loadable (ign\<lparr>is_user_pat := u\<rparr>)"
proof -
  from assms(1) obtain p i' p' where
    sk: "skip_space text = Inr p"
    and md: "modifiers (sl\<lparr>pattern := p, is_ignore := True, is_icase := False\<rparr>) p = Inr (i', p')"
    and rest: "(if take 7 p' = ''DEVICE:'' then init_device i' p'
                else if take 6 p' = ''INODE:'' then init_inode i' p'
                else init_regex i' p') = Inr ign"
    by (auto simp: ign___init_pattern_into_def split: sum.splits prod.splits)
  let ?j = "blank_ignore\<lparr>pattern := p, is_ignore := True, is_icase := False\<rparr>"
  let ?j' = "blank_ignore\<lparr>pattern := p, is_ignore := is_ignore i', is_icase := is_icase i'\<rparr>"
  have mj: "modifiers ?j p = Inr (?j', p')" and pi: "pattern i' = p"
    using modifiers_other_slot[OF md, of ?j] by simp_all
  have "\<exists>r'. (if take 7 p' = ''DEVICE:'' then init_device ?j' p'
                else if take 6 p' = ''INODE:'' then init_inode ?j' p'
                else init_regex ?j' p') = Inr r' \<and> pattern r' = p \<and> pattern ign = p"
    using rest pi init_device_other_slot[of i' p' ign ?j'] init_inode_other_slot[of i' p' ign ?j']
      init_regex_other_slot[of i' p' ign ?j']
    by (auto split: if_splits)
  then obtain r' where
    r': "(if take 7 p' = ''DEVICE:'' then init_device ?j' p'
          else if take 6 p' = ''INODE:'' then init_inode ?j' p'
          else init_regex ?j' p') = Inr r'" "pattern r' = p" "pattern ign = p"
    by blast
  have sp: "skip_space p = Inr p" "set p \<subseteq> set text"
    using skip_space_result[OF sk] by simp_all
  have "ign___init_pattern_into p blank_ignore = Inr r'"
    using sp(1) mj r'(1) by (simp add: ign___init_pattern_into_def)
  with r'(2,3) sp(2) assms(2) show ?thesis
    by (auto simp: loadable_def)
qed


lemma new_patterns_loadable:
  "new_patterns ignore_list u at ps = Inr new \<Longrightarrow> \<forall>p\<in>set ps. NUL \<notin> set p \<Longrightarrow>
   \<forall>ign\<in>set new. loadable ign"
proof (induction ps arbitrary: at new)
  case Nil
  then show ?case by simp
next
  case (Cons p ps)
  from Cons.prems(1) obtain ign rest where
    i: "ign___init_pattern_into p (slot ignore_list at) = Inr ign"
    and r: "new_patterns ignore_list u (Suc at) ps = Inr rest"
    and n: "new = ign\<lparr>is_user_pat := u\<rparr> # rest"
    by (auto split: sum.splits)
  have "loadable (ign\<lparr>is_user_pat := u\<rparr>)"
    using init_pattern_loadable[OF i] Cons.prems(2) by simp
  moreover have "\<forall>ign\<in>set rest. loadable ign"
    using Cons.IH[OF r] Cons.prems(2) by simp
  ultimately show ?case using n by simp
qed

text \<open>So the hypothesis of the round trip holds for every list that is built with
  \<^verbatim>\<open>ign__new_pattern\<close> from C strings.\<close>

lemma new_pattern_keeps_loadable:
  assumes "ign__new_pattern (Some ps) u position ignore_list = Inr ignore_list'"
    and "\<forall>p\<in>set ps. NUL \<notin> set p"
    and "\<forall>ign\<in>set ignore_list. loadable ign"
  shows "\<forall>ign\<in>set ignore_list'. loadable ign"
proof -
  from assms(1) obtain at new where
    n: "new_patterns ignore_list u at ps = Inr new"
    and l: "ignore_list' = take at ignore_list @ new @ drop at ignore_list"
    by (auto simp: ign__new_pattern_def Let_def split: sum.splits if_splits)
  have "\<forall>ign\<in>set new. loadable ign"
    using new_patterns_loadable[OF n assms(2)] .
  moreover have "set (take at ignore_list) \<subseteq> set ignore_list" "set (drop at ignore_list) \<subseteq> set ignore_list"
    by (auto dest: in_set_takeD in_set_dropD)
  ultimately show ?thesis using l assms(3) by auto
qed

text \<open>
  Claim C2. Saving the list and loading what was written is a round trip: the file holds
  the count and the texts of the user rules only, in their order, and loading it (behind
  whatever the list holds at that time) adds exactly these texts, in the same order, as
  user rules. The rules of the list are rules that can be read again, and their number
  fits the \<^verbatim>\<open>int\<close> that counts them.
\<close>

theorem save_then_load_round_trip:
  assumes "ign__save_ignorelist HEADER_LEN ignore_list = Inr file"
    and "\<forall>ign\<in>set ignore_list. is_user_pat ign \<longrightarrow> loadable ign"
    and "length (filter is_user_pat ignore_list) < 2 ^ 31"
  shows "file = decimal (length (filter is_user_pat ignore_list)) @ [CHR 0x0A]
                @ saved_patterns (map pattern (filter is_user_pat ignore_list))
     \<and> (\<exists>loaded. ign__load_list (Some file) start = (None, start @ loaded)
           \<and> map pattern loaded = map pattern (filter is_user_pat ignore_list)
           \<and> list_all is_user_pat loaded)"
proof -
  let ?users = "filter is_user_pat ignore_list"
  let ?ps = "map pattern ?users"
  have fl: "file = decimal (length ?users) @ [CHR 0x0A] @ saved_patterns ?ps"
    using assms(1)
    by (simp add: ign__save_ignorelist_def saved_patterns_def Let_def comp_def split: if_splits)
  have ok: "\<forall>p\<in>set ?ps. NUL \<notin> set p \<and> p \<noteq> []
           \<and> (\<exists>ign. ign___init_pattern_into p blank_ignore = Inr ign \<and> pattern ign = p)"
  proof
    fix p assume "p \<in> set ?ps"
    then obtain ign where ign: "ign \<in> set ignore_list" "is_user_pat ign" "p = pattern ign"
      by auto
    then have l: "loadable ign" using assms(2) by blast
    then obtain ign' where i: "ign___init_pattern_into p blank_ignore = Inr ign'" "pattern ign' = p"
      using ign(3) by (auto simp: loadable_def split: sum.splits)
    have "p \<noteq> []" using i(1) by (auto simp: init_empty)
    with l i ign(3) show "NUL \<notin> set p \<and> p \<noteq> []
           \<and> (\<exists>ign. ign___init_pattern_into p blank_ignore = Inr ign \<and> pattern ign = p)"
      by (auto simp: loadable_def)
  qed
  obtain loaded where
    ld: "load_patterns (length ?ps) ([] @ saved_patterns ?ps) start = Inr (start @ loaded)"
      and lp: "map pattern loaded = ?ps" and lu: "list_all is_user_pat loaded"
    using load_saved_patterns[of "[]" ?ps start] ok by auto
  have "ign__load_list (Some file) start = (None, start @ loaded)"
    using load_list_header[of "length ?users" "saved_patterns ?ps" start] assms(3) ld fl
    by simp
  with lp lu have "\<exists>loaded. ign__load_list (Some file) start = (None, start @ loaded)
           \<and> map pattern loaded = ?ps \<and> list_all is_user_pat loaded"
    by blast
  with fl show ?thesis by blast
qed

text \<open>
  Claim C9. Loading is all or nothing: whenever \<^verbatim>\<open>ign__load_list\<close> returns an error
  the list is empty afterwards; and when one of the counted patterns of the file is
  refused by \<^verbatim>\<open>ign___init_pattern_into\<close>, the load returns an error, whatever the
  patterns before it were and whatever the list held.
\<close>

theorem load_is_all_or_nothing:
  "(\<forall>file ignore_list e ignore_list'.
      ign__load_list file ignore_list = (Some e, ignore_list') \<longrightarrow> ignore_list' = [])
   \<and> (\<forall>ps ignore_list.
        length ps < 2 ^ 31 \<and> (\<forall>p\<in>set ps. NUL \<notin> set p)
        \<and> (\<exists>p\<in>set ps. \<forall>sl. \<exists>e. ign___init_pattern_into p sl = Inl e) \<longrightarrow>
        (\<exists>e. ign__load_list (Some (decimal (length ps) @ [CHR 0x0A] @ saved_patterns ps)) ignore_list
              = (Some e, [])))"
proof -
  have a: "\<forall>file ignore_list e ignore_list'.
      ign__load_list file ignore_list = (Some e, ignore_list') \<longrightarrow> ignore_list' = []"
    using load_error_empties by blast
  have b: "\<exists>e. ign__load_list (Some (decimal (length ps) @ [CHR 0x0A] @ saved_patterns ps)) ignore_list
              = (Some e, [])"
    if h: "length ps < 2 ^ 31" "\<forall>p\<in>set ps. NUL \<notin> set p"
      "\<exists>p\<in>set ps. \<forall>sl. \<exists>e. ign___init_pattern_into p sl = Inl e"
    for ps ignore_list
  proof -
    obtain e where "load_patterns (length ps) ([] @ saved_patterns ps) ignore_list = Inl e"
      using load_refused_pattern[of "[]" ps ignore_list] h(2,3) by auto
    then show ?thesis
      using load_list_header[OF h(1), of "saved_patterns ps" ignore_list] by simp
  qed
  show ?thesis
    by (intro conjI a) (use b in blast)
qed


theorem load_is_all_or_nothing_witness:
  "length [''./a'', ''XYZ:foo''] < 2 ^ 31
   \<and> NUL \<notin> set ''./a'' \<and> NUL \<notin> set ''XYZ:foo''
   \<and> (\<forall>sl. ign___init_pattern_into ''XYZ:foo'' sl = Inl EINVAL)
   \<and> (\<exists>e. ign__load_list
             (Some (''2'' @ [CHR 0x0A] @ ''./a'' @ [NUL, CHR 0x0A] @ ''XYZ:foo'' @ [NUL, CHR 0x0A])) []
           = (Some e, []))"
proof -
  have r: "\<forall>sl. ign___init_pattern_into ''XYZ:foo'' sl = Inl EINVAL"
    by (simp add: ign___init_pattern_into_def init_regex_def isspace_def)
  have n: "\<forall>p\<in>set [''./a'', ''XYZ:foo'']. NUL \<notin> set p"
    by (simp add: NUL_def)
  have l: "length [''./a'', ''XYZ:foo''] < 2 ^ 31" by simp
  have d: "decimal (length [''./a'', ''XYZ:foo'']) = ''2''"
    by code_simp
  have x: "\<exists>p\<in>set [''./a'', ''XYZ:foo'']. \<forall>sl. \<exists>e. ign___init_pattern_into p sl = Inl e"
    using r by simp
  have "\<exists>e. ign__load_list
          (Some (decimal (length [''./a'', ''XYZ:foo'']) @ [CHR 0x0A]
                 @ saved_patterns [''./a'', ''XYZ:foo''])) []
        = (Some e, [])"
    using load_is_all_or_nothing[THEN conjunct2, rule_format, of "[''./a'', ''XYZ:foo'']" "[]"] l n x
    by blast
  then have "\<exists>e. ign__load_list
             (Some (''2'' @ [CHR 0x0A] @ ''./a'' @ [NUL, CHR 0x0A] @ ''XYZ:foo'' @ [NUL, CHR 0x0A])) []
           = (Some e, [])"
    unfolding d by (simp add: saved_patterns_def)
  moreover have "NUL \<notin> set ''./a''" "NUL \<notin> set ''XYZ:foo''"
    using n by simp_all
  ultimately show ?thesis using l r by (intro conjI)
qed

text \<open>A list with a built-in rule \<open>./a\<close> and the user rule \<open>./a/*\<close>: only the user rule
  is written, and loading the file behind the built-in rule brings its text back.\<close>

theorem save_then_load_round_trip_witness:
  "\<exists>b u file loaded.
     ign___init_pattern_into ''./a'' blank_ignore = Inr b
     \<and> ign___init_pattern_into ''./a/*'' blank_ignore = Inr u
     \<and> ign__save_ignorelist 64 [b\<lparr>is_user_pat := False\<rparr>, u\<lparr>is_user_pat := True\<rparr>] = Inr file
     \<and> file = ''1'' @ [CHR 0x0A] @ ''./a/*'' @ [NUL, CHR 0x0A]
     \<and> ign__load_list (Some file) [b\<lparr>is_user_pat := False\<rparr>]
         = (None, [b\<lparr>is_user_pat := False\<rparr>] @ loaded)
     \<and> map pattern loaded = [''./a/*'']
     \<and> list_all is_user_pat loaded"
proof -
  obtain b where b: "ign___init_pattern_into ''./a'' blank_ignore = Inr b"
    using init_a by blast
  obtain u where u: "ign___init_pattern_into ''./a/*'' blank_ignore = Inr u"
    using init_a_star by blast
  have pu: "pattern u = ''./a/*''"
    using u unfolding init_a_star by auto
  let ?l = "[b\<lparr>is_user_pat := False\<rparr>, u\<lparr>is_user_pat := True\<rparr>]"
  let ?file = "''1'' @ [CHR 0x0A] @ ''./a/*'' @ [NUL, CHR 0x0A]"
  have d: "decimal (Suc 0) = ''1''" by code_simp
  have sv: "ign__save_ignorelist 64 ?l = Inr ?file"
    by (simp add: ign__save_ignorelist_def pu d)
  have ld: "\<forall>ign\<in>set ?l. is_user_pat ign \<longrightarrow> loadable ign"
    using u pu by (simp add: loadable_def NUL_def)
  have n: "length (filter is_user_pat ?l) < 2 ^ 31" by simp
  from save_then_load_round_trip[OF sv ld n, of "[b\<lparr>is_user_pat := False\<rparr>]"]
  obtain loaded where
    l1: "ign__load_list (Some ?file) [b\<lparr>is_user_pat := False\<rparr>] = (None, [b\<lparr>is_user_pat := False\<rparr>] @ loaded)"
    and l2: "map pattern loaded = [''./a/*'']" and l3: "list_all is_user_pat loaded"
    using pu by auto
  show ?thesis
    by (rule exI[of _ b], rule exI[of _ u], rule exI[of _ ?file], rule exI[of _ loaded])
       (intro conjI b u sv refl l1 l2 l3)
qed

section \<open>Inserting rules at an index\<close>

lemma scan_at_1: "scan_at ''at=1'' = Some 1"
  by (simp add: scan_at_def scan_int_def isspace_def isdigit_def digit_value_def to_int_def Let_def)

lemma prepend_is_no_index: "''at='' @ decimal k \<noteq> ''prepend''"
  by simp

lemma scan_at_decimal:
  assumes "k < 2 ^ 31"
  shows "scan_at (''at='' @ decimal k) = Some (int k)"
proof -
  obtain d ds where d: "decimal k = d # ds"
    using decimal_not_empty[of k] by (cases "decimal k") auto
  have dig: "\<forall>c\<in>set (decimal k). isdigit c" using decimal_digits by blast
  then have dd: "isdigit d" using d by simp
  have sp: "dropWhile isspace (decimal k) = decimal k"
    using dd d isdigit_plain[of d] by simp
  have tw: "takeWhile isdigit (decimal k) = decimal k"
    using dig by (simp add: takeWhile_eq_all_conv)
  have sign: "d \<noteq> CHR ''-''" "d \<noteq> CHR ''+''" using isdigit_plain[OF dd] by auto
  have "scan_int (decimal k) = Some (int k)"
    unfolding scan_int_def sp
    using sign tw d decimal_not_empty[of k] digits_value_decimal[of k] to_int_small[OF assms]
    by (simp add: Let_def)
  then show ?thesis by (simp add: scan_at_def)
qed

lemma first_user_pattern_prefix:
  "list_all (\<lambda>ign. \<not> is_user_pat ign) builtin \<Longrightarrow> users = [] \<or> is_user_pat (hd users) \<Longrightarrow>
   first_user_pattern (builtin @ users) = length builtin"
  by (induction builtin) (cases users; auto)+

lemma new_patterns_length:
  "new_patterns ignore_list u at ps = Inr new \<Longrightarrow> length new = length ps \<and> list_all (\<lambda>ign. is_user_pat ign = u) new"
  by (induction ps arbitrary: at new) (auto split: sum.splits)

text \<open>
  What the claim says about an index within the user rules holds: the new rules stand
  behind the built-in rules and the first \<open>k\<close> user rules, the user rules that were at
  index \<open>k\<close> and behind follow them in their old order, and no rule is changed.
\<close>

lemma insert_at_index:
  assumes "list_all (\<lambda>ign. \<not> is_user_pat ign) builtin"
    and "list_all is_user_pat users"
    and "k \<le> length users"
    and "ign__work (''at='' @ decimal k) args (builtin @ users) = Inr ignore_list"
    and "k < 2 ^ 31"
  shows "\<exists>new. ignore_list = builtin @ take k users @ new @ drop k users
           \<and> length new = length args \<and> list_all is_user_pat new"
proof -
  have "users = [] \<or> is_user_pat (hd users)"
    using assms(2) by (cases users) auto
  then have fu: "first_user_pattern (builtin @ users) = length builtin"
    using first_user_pattern_prefix[OF assms(1)] by blast
  have np: "ign__new_pattern (Some args) True (int k) (builtin @ users) = Inr ignore_list"
    using assms(3,4) scan_at_decimal[OF assms(5)] prepend_is_no_index[of k]
    by (auto simp: ign__work_def split: if_splits)
  show ?thesis
  proof (cases "builtin @ users = []")
    case True
    then have e: "builtin = []" "users = []" "k = 0" using assms(3) by auto
    from np e obtain new where "new_patterns [] True 0 args = Inr new" "ignore_list = new"
      by (auto simp: ign__new_pattern_def Let_def PATTERN_POSITION_END_def split: sum.splits)
    with e new_patterns_length[of "[]" True 0 args new] show ?thesis by auto
  next
    case False
    have used: "0 < length builtin + length users" using False by (cases builtin) auto
    have pos: "nat (int (length builtin) + int k) = length builtin + k" by simp
    have "ign__new_pattern (Some args) True (int k) (builtin @ users)
          = (case new_patterns (builtin @ users) True (length builtin + k) args of
               Inl e \<Rightarrow> Inl e
             | Inr new \<Rightarrow>
                 Inr (take (length builtin + k) (builtin @ users) @ new
                      @ drop (length builtin + k) (builtin @ users)))"
      using used fu assms(3) pos
      by (simp add: ign__new_pattern_def Let_def PATTERN_POSITION_END_def
          del: take_append drop_append of_nat_add cong: sum.case_cong)
    with np obtain new where
      n: "new_patterns (builtin @ users) True (length builtin + k) args = Inr new"
      and l: "ignore_list = take (length builtin + k) (builtin @ users) @ new
                            @ drop (length builtin + k) (builtin @ users)"
      by (auto split: sum.splits)
    from l have "ignore_list = builtin @ take k users @ new @ drop k users" by simp
    with new_patterns_length[OF n] show ?thesis by auto
  qed
qed

text \<open>
  Claim C4 says that an index beyond the number of user rules is refused as an invalid
  range. \<^verbatim>\<open>ign__work\<close> compares the index with the number of all rules. With one
  built-in rule and no user rule, the index \<open>1\<close> passes that test, and
  \<^verbatim>\<open>ign__new_pattern\<close> moves on to the position \<open>2\<close> behind the end of the list, where it
  aborts.
\<close>

theorem index_beyond_user_rules_is_not_refused:
  "\<exists>b. ign___init_pattern_into ''./a'' blank_ignore = Inr b
     \<and> filter is_user_pat [b\<lparr>is_user_pat := False\<rparr>] = []
     \<and> scan_at ''at=1'' = Some 1
     \<and> ign__work ''at=1'' [''./x''] [b\<lparr>is_user_pat := False\<rparr>] = Inl BUG
     \<and> ign__work ''at=1'' [''./x''] [b\<lparr>is_user_pat := False\<rparr>] \<noteq> Inl EINVAL"
proof -
  obtain b where b: "ign___init_pattern_into ''./a'' blank_ignore = Inr b"
    using init_a by blast
  have w: "ign__work ''at=1'' [''./x''] [b\<lparr>is_user_pat := False\<rparr>] = Inl BUG"
    by (simp add: ign__work_def scan_at_1 ign__new_pattern_def PATTERN_POSITION_END_def)
  show ?thesis
    by (rule exI[of _ b]) (simp add: b scan_at_1 w)
qed

section \<open>The wildcard for any number of directory levels\<close>

lemma bracket_content_rest: "length (snd (bracket_content seen s)) \<le> length s"
proof (induction seen s rule: bracket_content.induct)
  case (1 seen)
  then show ?case by simp
next
  case (2 seen c s)
  show ?case
  proof (cases "c = CHR 0x5C")
    case True
    show ?thesis
    proof (cases s)
      case Nil
      with True show ?thesis by simp
    next
      case (Cons e s')
      with True 2(1)[OF True Cons] show ?thesis by (auto split: prod.splits)
    qed
  next
    case False
    show ?thesis
    proof (cases "c = CHR '']'' \<and> seen")
      case True
      with False show ?thesis by simp
    next
      case F: False
      with False 2(2)[OF False F] show ?thesis by (auto split: prod.splits)
    qed
  qed
qed

lemma bracket_spec_rest: "length (snd (bracket_spec s)) \<le> length s"
proof -
  have "length (snd (bracket_content False (dropWhile is_negation s))) \<le> length (dropWhile is_negation s)"
    by (rule bracket_content_rest)
  also have "\<dots> \<le> length s" by (rule length_dropWhile_le)
  finally show ?thesis by (auto simp: bracket_spec_def split: prod.splits)
qed

text \<open>
  The reading of a shell pattern that the amended claim C7 speaks of: a backslash takes
  the next character out of the reading, a bracket expression is skipped as a whole, and
  what is looked for is a \<open>*\<close> read as wildcard with another \<open>*\<close> right behind it.
\<close>

function has_wild_run :: "string \<Rightarrow> bool" where
  "has_wild_run [] = False"
| "has_wild_run (c # s) =
     (if c = CHR 0x5C then has_wild_run (tl s)
      else if c = CHR ''['' then has_wild_run (snd (bracket_spec s))
      else if c = CHR ''*'' \<and> (case s of [] \<Rightarrow> False | n # _ \<Rightarrow> n = CHR ''*'') then True
      else has_wild_run s)"
  by pat_completeness auto
termination
proof (relation "measure length", goal_cases)
  case 1
  show ?case by simp
next
  case (2 c s)
  then show ?case by (cases s) auto
next
  case (3 c s)
  then show ?case using bracket_spec_rest[of s] by simp
next
  case (4 c s)
  then show ?case by simp
qed

lemma bracket_loop_more_room:
  "bracket_loop room pos bs s = Inr r \<Longrightarrow> room \<le> room' \<Longrightarrow> bracket_loop room' pos bs s = Inr r"
proof (induction s arbitrary: room room' pos bs r)
  case Nil
  then show ?case by simp
next
  case (Cons c s)
  have ih: "\<And>p b x. bracket_loop (room - 1) p b s = Inr x \<Longrightarrow> bracket_loop (room' - 1) p b s = Inr x"
    using Cons.IH[of "room - 1" _ _ _ "room' - 1"] Cons.prems(2) by simp
  consider (esc) "bs" | (neg) "\<not> bs" "pos = 0 \<and> (c = CHR ''!'' \<or> c = CHR ''^'')"
    | (other) "\<not> bs" "\<not> (pos = 0 \<and> (c = CHR ''!'' \<or> c = CHR ''^''))"
    by blast
  then show ?case
  proof cases
    case esc
    with Cons.prems ih show ?thesis
      by (auto split: if_splits sum.splits prod.splits)
  next
    case neg
    with Cons.prems ih show ?thesis
      by (auto split: if_splits sum.splits prod.splits)
  next
    case other
    with Cons.prems ih show ?thesis
      by (auto simp: Let_def split: if_splits sum.splits prod.splits)
  qed
qed

lemma translate_bracketed_expr_success:
  assumes "ign___translate_bracketed_expr room (CHR ''['' # s) = Inr (out, rest)"
  shows "(out, rest) = bracket_spec s"
proof -
  let ?room = "max room (int (length s) + 6)"
  have "bracket_loop room (- 1) False (CHR ''['' # s) = Inr (out, rest)"
    using assms by (simp add: ign___translate_bracketed_expr_def)
  then have "bracket_loop ?room (- 1) False (CHR ''['' # s) = Inr (out, rest)"
    by (rule bracket_loop_more_room) simp
  then have more: "ign___translate_bracketed_expr ?room (CHR ''['' # s) = Inr (out, rest)"
    by (simp add: ign___translate_bracketed_expr_def)
  have "bracket_loop (?room - 1) 0 False s =
     (case bracket_content False (dropWhile is_negation s) of
        (out, rest) \<Rightarrow> Inr (map (\<lambda>_. CHR ''^'') (takeWhile is_negation s) @ out, rest))"
    using bracket_loop_negation[of s "?room - 1"] by simp
  then have "ign___translate_bracketed_expr ?room (CHR ''['' # s) = Inr (bracket_spec s)"
    by (simp add: ign___translate_bracketed_expr_def bracket_spec_def split: prod.splits)
  with more show ?thesis by simp
qed


lemma backslash_not_alnum: "\<not> isalnum CHR 0x5C"
  by (simp add: isalnum_def isdigit_def islower_def isupper_def)

lemma shell_step_wild:
  assumes "shell_step room bs c src = Inr (d, w, bs', rest)"
  shows "has_wild_run (if bs then src else c # src)
         = (w \<or> has_wild_run (if bs' then tl rest else rest))"
proof (cases bs)
  case True
  with assms show ?thesis by (simp add: shell_step_def)
next
  case nbs: False
  show ?thesis
  proof (cases "c = CHR ''[''")
    case True
    with assms nbs obtain out where
      t: "ign___translate_bracketed_expr room (CHR ''['' # src) = Inr (out, rest)" and f: "\<not> w" "\<not> bs'"
      by (auto simp: shell_step_def split: sum.splits)
    have "rest = snd (bracket_spec src)"
      using translate_bracketed_expr_success[OF t] by (metis snd_conv)
    with True nbs f show ?thesis by simp
  next
    case nbr: False
    show ?thesis
    proof (cases "c = CHR 0x5C")
      case True
      with assms nbs show ?thesis
        by (simp add: shell_step_def backslash_not_alnum)
    next
      case nesc: False
      show ?thesis
      proof (cases "c = CHR ''*''")
        case True
        with assms nbs show ?thesis
          by (cases src) (auto simp: shell_step_def split: if_splits)
      next
        case False
        with assms nbs nbr nesc show ?thesis
          by (auto simp: shell_step_def split: if_splits)
      qed
    qed
  qed
qed

lemma shell_loop_wild:
  "shell_loop room bs s = Inr (out, wild) \<Longrightarrow> wild = has_wild_run (if bs then tl s else s)"
proof (induction room bs s arbitrary: out wild rule: shell_loop.induct)
  case (1 room backslashed)
  then show ?case by simp
next
  case (2 room bs c src)
  from 2(2) obtain d w bs' rest out' wild' where
    step: "shell_step room bs c src = Inr (d, w, bs', rest)"
    and room: "\<not> room - int (length d) < 11"
    and rec: "shell_loop (room - int (length d)) bs' rest = Inr (out', wild')"
    and wild: "wild = (w \<or> wild')"
    by (auto split: sum.splits prod.splits if_splits)
  have "wild' = has_wild_run (if bs' then tl rest else rest)"
    using 2(1)[OF step refl refl refl room rec] .
  with wild shell_step_wild[OF step]
  have "wild = has_wild_run (if bs then src else c # src)" by (simp del: has_wild_run.simps)
  then show ?case by (simp del: has_wild_run.simps)
qed

lemma translate_shell_wild:
  "translate_shell pat p = Inr (out, wild) \<Longrightarrow> wild = has_wild_run p"
  using shell_loop_wild[of _ False p]
  by (auto simp: translate_shell_def split: if_splits sum.splits simp del: has_wild_run.simps)


lemma match_star_any_all: "set (match_star ci AnyChar s) = {r. \<exists>p. s = p @ r}"
proof (induction s)
  case Nil
  then show ?case by auto
next
  case (Cons c s)
  have "{r. \<exists>p. c # s = p @ r} = insert (c # s) {r. \<exists>p. s = p @ r}"
    by (auto simp: Cons_eq_append_conv)
  with Cons.IH show ?case by simp
qed

lemma star_run_step:
  assumes "case post of [] \<Rightarrow> True | n # _ \<Rightarrow> n \<noteq> CHR ''*''"
  shows "shell_step room False CHR ''*'' (CHR ''*'' # replicate m CHR ''*'' @ post)
         = Inr (''.*'', True, False, post)"
proof -
  have "dropWhile (\<lambda>x. x = CHR ''*'') (replicate m CHR ''*'' @ post) = post"
    using assms by (induction m) (auto split: list.splits)
  then show ?thesis by (simp add: shell_step_def)
qed

text \<open>
  Claim C7, as amended. The flag \<^verbatim>\<open>has_wildwildcard\<close> is set exactly for the patterns
  in which a run of two or more \<open>*\<close> is read as wildcard, that is with its first \<open>*\<close>
  neither behind a backslash nor inside a bracket expression; the translation writes
  \<open>.*\<close> once for the whole run and goes on behind it; \<open>.*\<close> stands for every sequence of
  characters. The rule \<open>./a/**\<close> has the flag set and matches \<open>./a/b\<close>, \<open>./a/b/c\<close> and
  every other path that starts with \<open>./a/\<close>.
\<close>

theorem wild_run_sets_unbounded_wildcard:
  "(\<forall>pat p out wild. translate_shell pat p = Inr (out, wild) \<longrightarrow> wild = has_wild_run p)
   \<and> (\<forall>room m post. (case post of [] \<Rightarrow> True | n # _ \<Rightarrow> n \<noteq> CHR ''*'') \<longrightarrow>
         shell_step room False CHR ''*'' (CHR ''*'' # replicate m CHR ''*'' @ post)
         = Inr (''.*'', True, False, post))
   \<and> parse_pieces ''.*'' = Some ([Star AnyChar], [])
   \<and> (\<forall>ci s. set (match_piece ci (Star AnyChar) s) = {r. \<exists>p. s = p @ r})
   \<and> (\<exists>ign re. ign___init_pattern_into ''./a/**'' sl = Inr ign \<and> has_wildwildcard ign
         \<and> compare_string ign = CHR 0x5C # ''./a/.*$'' \<and> compiled ign = Some re
         \<and> pcre_exec re ''./a/b'' = 0 \<and> pcre_exec re ''./a/b/c'' = 0
         \<and> (\<forall>s. pcre_exec re (''./a/'' @ s) = 0))"
proof -
  have a: "\<forall>pat p out wild. translate_shell pat p = Inr (out, wild) \<longrightarrow> wild = has_wild_run p"
    using translate_shell_wild by blast
  have b: "\<forall>room m post. (case post of [] \<Rightarrow> True | n # _ \<Rightarrow> n \<noteq> CHR ''*'') \<longrightarrow>
         shell_step room False CHR ''*'' (CHR ''*'' # replicate m CHR ''*'' @ post)
         = Inr (''.*'', True, False, post)"
    using star_run_step by blast
  have c: "parse_pieces ''.*'' = Some ([Star AnyChar], [])"
    by code_simp
  have d: "\<forall>ci s. set (match_piece ci (Star AnyChar) s) = {r. \<exists>p. s = p @ r}"
    using match_star_any_all by simp
  have e1: "pcre_exec re_a_starstar ''./a/b'' = 0"
    using a_starstar_below[of "''b''"] by simp
  have e2: "pcre_exec re_a_starstar ''./a/b/c'' = 0"
    using a_starstar_below[of "''b/c''"] by simp
  have e: "\<exists>ign re. ign___init_pattern_into ''./a/**'' sl = Inr ign \<and> has_wildwildcard ign
         \<and> compare_string ign = CHR 0x5C # ''./a/.*$'' \<and> compiled ign = Some re
         \<and> pcre_exec re ''./a/b'' = 0 \<and> pcre_exec re ''./a/b/c'' = 0
         \<and> (\<forall>s. pcre_exec re (''./a/'' @ s) = 0)"
    using e1 e2 a_starstar_below by (simp add: init_a_starstar)
  show ?thesis by (intro conjI a b c d e)
qed

theorem wild_run_sets_unbounded_wildcard_witness:
  "translate_shell ''./**/x'' ''./**/x'' = Inr (CHR 0x5C # ''./.*/x$'', True)
   \<and> has_wild_run ''./**/x''
   \<and> shell_step 40 False CHR ''*'' (CHR ''*'' # replicate 1 CHR ''*'' @ ''/x'') = Inr (''.*'', True, False, ''/x'')"
proof -
  have t: "translate_shell ''./**/x'' ''./**/x'' = Inr (CHR 0x5C # ''./.*/x$'', True)"
    by code_simp
  have w: "has_wild_run ''./**/x''"
    using wild_run_sets_unbounded_wildcard[of blank_ignore, THEN conjunct1, rule_format, OF t]
    by simp
  have p: "case ''/x'' of [] \<Rightarrow> True | n # _ \<Rightarrow> n \<noteq> CHR ''*''" by simp
  have s: "shell_step 40 False CHR ''*'' (CHR ''*'' # replicate 1 CHR ''*'' @ ''/x'')
           = Inr (''.*'', True, False, ''/x'')"
    using wild_run_sets_unbounded_wildcard[of blank_ignore, THEN conjunct2, THEN conjunct1,
        rule_format, OF p] .
  show ?thesis by (intro conjI t w s)
qed

text \<open>Claim C7 as it is written speaks of every pattern that holds a run of two or more
  \<open>*\<close>. In \<open>./\**\<close> the first \<open>*\<close> stands behind a backslash: it is copied as a literal
  character, the second \<open>*\<close> is a wildcard for one level, and the flag stays unset.\<close>

theorem escaped_star_run_counterexample:
  "(case ign___init_pattern_into (''./'' @ [CHR 0x5C] @ ''**'') blank_ignore of
      Inl e \<Rightarrow> False
    | Inr ign \<Rightarrow>
        drop 3 (pattern ign) = ''**''
        \<and> \<not> has_wildwildcard ign
        \<and> compare_string ign = [CHR 0x5C] @ ''./'' @ [CHR 0x5C] @ ''*[^/]*$'')"
  by code_simp

end
